theory Spec2Isabelle
  imports Complex_Main "HOL-Library.Word"
begin

section \<open>Strings and values of the JavaScript runtime\<close>

text \<open>
  A JavaScript string is a sequence of UTF-16 code units; \<open>length\<close>, \<open>slice\<close>, \<open>trim\<close> and
  the regular expressions of \<^verbatim>\<open>src/index.js\<close> (none has the \<^verbatim>\<open>u\<close> flag) all work on code
  units. \<open>js\<close> embeds an ASCII literal.
\<close>

type_synonym cu = "16 word"
type_synonym jstring = "cu list"
type_synonym byte = "8 word"

definition js :: "string \<Rightarrow> jstring" where
  "js s = map (\<lambda>c. of_nat (of_char c)) s"

text \<open>
  A finite Number is modelled by its exact rational value (the two zeros are one value: no
  function of the worker tells them apart, \<^verbatim>\<open>-0 < 0\<close> is false and \<^verbatim>\<open>(-0).toFixed(2)\<close> is
  \<^verbatim>\<open>"0.00"\<close>).
\<close>

datatype jsnum = NaN | PosInf | NegInf | Fin rat

text \<open>
  The values \<^verbatim>\<open>JSON.parse\<close> produces, and \<^verbatim>\<open>undefined\<close> for a property that is absent.
  An object is the list of its own properties.
\<close>

datatype jsval =
    JUndefined
  | JNull
  | JBool bool
  | JNum jsnum
  | JStr jstring
  | JArr "jsval list"
  | JObj "(jstring \<times> jsval) list"

datatype js_error = TypeError | ReadRejected | SignRejected | FetchRejected

subsection \<open>White space, \<^verbatim>\<open>trim\<close>\<close>

text \<open>ECMAScript \<open>WhiteSpace\<close> and \<open>LineTerminator\<close> code units, as \<^verbatim>\<open>String.prototype.trim\<close>,
  \<^verbatim>\<open>parseInt\<close> and \<^verbatim>\<open>parseFloat\<close> strip them.\<close>

definition is_space :: "cu \<Rightarrow> bool" where
  "is_space c \<longleftrightarrow>
     c = 0x9 \<or> c = 0xA \<or> c = 0xB \<or> c = 0xC \<or> c = 0xD \<or> c = 0x20 \<or> c = 0xA0 \<or>
     c = 0x1680 \<or> (0x2000 \<le> c \<and> c \<le> 0x200A) \<or> c = 0x2028 \<or> c = 0x2029 \<or>
     c = 0x202F \<or> c = 0x205F \<or> c = 0x3000 \<or> c = 0xFEFF"

definition trim_start :: "jstring \<Rightarrow> jstring" where
  "trim_start s = dropWhile is_space s"

definition trim_end :: "jstring \<Rightarrow> jstring" where
  "trim_end s = rev (dropWhile is_space (rev s))"

definition trim :: "jstring \<Rightarrow> jstring" where
  "trim s = trim_end (trim_start s)"

section \<open>The sanitizer \<^verbatim>\<open>safeText\<close>\<close>

text \<open>\<^verbatim>\<open>v.replace(/[<>]/g, "")\<close>: every code unit \<^verbatim>\<open><\<close> or \<^verbatim>\<open>>\<close> is deleted.\<close>

definition strip_angle :: "jstring \<Rightarrow> jstring" where
  "strip_angle s = filter (\<lambda>c. c \<noteq> 0x3C \<and> c \<noteq> 0x3E) s"

definition is_ctl :: "cu \<Rightarrow> bool" where
  "is_ctl c \<longleftrightarrow> c \<le> 0x1F"

text \<open>\<^verbatim>\<open>.replace(/[\u0000-\u001F]+/g, " ")\<close>: the greedy \<^verbatim>\<open>+\<close> takes a maximal run of
  control code units, the global flag continues after the run.\<close>

function replace_ctl_runs :: "jstring \<Rightarrow> jstring" where
  "replace_ctl_runs [] = []"
| "replace_ctl_runs (c # cs) =
     (if is_ctl c then 0x20 # replace_ctl_runs (dropWhile is_ctl cs)
      else c # replace_ctl_runs cs)"
  by pat_completeness auto
termination
  by (relation "measure length") (auto simp: le_imp_less_Suc length_dropWhile_le)

text \<open>
  \<^verbatim>\<open>function safeText(v, max = 200) {
    if (typeof v !== "string") return "";
    const s = v.replace(/[<>]/g, "").replace(/[\u0000-\u001F]+/g, " ").trim();
    return s.length > max ? s.slice(0, max) : s; }\<close>
\<close>

definition safeText :: "jsval \<Rightarrow> nat \<Rightarrow> jstring" where
  "safeText v mx =
     (case v of
        JStr x \<Rightarrow>
          (let s = trim (replace_ctl_runs (strip_angle x))
           in if length s > mx then take mx s else s)
      | _ \<Rightarrow> [])"

subsection \<open>The sanitizer as the specification words it\<close>

text \<open>
  One pass over the string: \<^verbatim>\<open><\<close> and \<^verbatim>\<open>>\<close> are dropped, a control code unit is dropped
  too, and the first one of a run leaves a single space; the flag says whether the pass is
  inside a run. Then leading and trailing white space goes, then the length is cut.
\<close>

fun spec_strip :: "bool \<Rightarrow> jstring \<Rightarrow> jstring" where
  "spec_strip in_run [] = []"
| "spec_strip in_run (c # cs) =
     (if c = 0x3C \<or> c = 0x3E then spec_strip in_run cs
      else if c \<le> 0x1F then (if in_run then spec_strip True cs else 0x20 # spec_strip True cs)
      else c # spec_strip False cs)"

definition spec_trim :: "jstring \<Rightarrow> jstring" where
  "spec_trim s =
     (let t = dropWhile is_space s
      in take (length t - length (takeWhile is_space (rev t))) t)"

definition spec_safeText :: "jstring \<Rightarrow> nat \<Rightarrow> jstring" where
  "spec_safeText s maxLen = take maxLen (spec_trim (spec_strip False s))"

section \<open>Numbers: \<^verbatim>\<open>parseInt\<close>, \<^verbatim>\<open>parseFloat\<close>, \<^verbatim>\<open>String\<close>, \<^verbatim>\<open>toFixed\<close>\<close>

subsection \<open>Rounding a rational to a double\<close>

text \<open>\<open>ilog b n\<close> is the floor of the logarithm of \<open>n \<ge> 1\<close> to the base \<open>b\<close>, \<open>flog b a\<close>
  that of a positive rational.\<close>

function ilog :: "int \<Rightarrow> int \<Rightarrow> nat" where
  "ilog b n = (if b < 2 \<or> n < b then 0 else Suc (ilog b (n div b)))"
  by pat_completeness auto
termination
  by (relation "measure (\<lambda>(b, n). nat n)") (auto simp: zless_nat_conj int_div_less_self)

definition flog_adj :: "int \<Rightarrow> rat \<Rightarrow> int \<Rightarrow> int" where
  "flog_adj b a e = (if of_int b powi e \<le> a then e else e - 1)"

definition flog :: "int \<Rightarrow> rat \<Rightarrow> int" where
  "flog b a = (case quotient_of a of (p, d) \<Rightarrow> flog_adj b a (int (ilog b p) - int (ilog b d)))"

definition round_half_even :: "rat \<Rightarrow> int" where
  "round_half_even x =
     (let f = \<lfloor>x\<rfloor>; r = x - of_int f
      in if r < 1 / 2 then f else if 1 / 2 < r then f + 1 else if even f then f else f + 1)"

text \<open>
  The Number value of a rational (IEEE 754 binary64, round to nearest,
  ties to even): a 53-bit mantissa at the exponent of the argument, which is at least
  \<open>-1022\<close> (below, the numbers are subnormal); a result of \<open>2 ^ 1024\<close> or more is infinite.
\<close>

definition mantissa :: "rat \<Rightarrow> int \<Rightarrow> int" where
  "mantissa a e = round_half_even (a / 2 powi (e - 52))"

definition pack :: "bool \<Rightarrow> int \<Rightarrow> int \<Rightarrow> jsnum" where
  "pack pos e m =
     (if 1023 < e \<or> (e = 1023 \<and> 2 ^ 53 \<le> m) then (if pos then PosInf else NegInf)
      else Fin ((if pos then 1 else - 1) * of_int m * 2 powi (e - 52)))"

definition round_double :: "rat \<Rightarrow> jsnum" where
  "round_double q =
     (if q = 0 then Fin 0
      else let e = max (flog 2 \<bar>q\<bar>) (- 1022) in pack (0 < q) e (mantissa \<bar>q\<bar> e))"

subsection \<open>\<^verbatim>\<open>Number::toString\<close>\<close>

definition digit :: "int \<Rightarrow> cu" where
  "digit d = of_int (48 + d)"

function dec_digits :: "int \<Rightarrow> jstring" where
  "dec_digits n = (if n < 10 then [digit n] else dec_digits (n div 10) @ [digit (n mod 10)])"
  by pat_completeness auto
termination
  by (relation "measure nat") auto

text \<open>
  ECMAScript asks for integers \<open>n\<close>, \<open>k\<close>, \<open>s\<close> with \<open>k \<ge> 1\<close>, \<open>10 ^ (k - 1) \<le> s < 10 ^ k\<close>,
  \<open>s * 10 ^ (n - k)\<close> rounding to the number, and \<open>k\<close> as small as possible; of several \<open>s\<close>
  the one whose decimal is closest to the number, the even one of two. The decimals that
  round to \<open>x\<close> lie in an interval around \<open>x\<close>, so among the decimals of \<open>k\<close> digits only the
  two next to \<open>x\<close>, one on each side, can do so. \<open>digit_cand\<close> tries the nearer of the two
  first (\<open>nearest_cand\<close>, ties to even), then the other one; a candidate of \<open>10 ^ k\<close> is the
  digit 1 one decade up (\<open>cand_norm\<close>). \<open>shortest\<close> takes the first \<open>k\<close> with a candidate
  that rounds back to \<open>x\<close>. Seventeen digits are enough for a double that is not an integer,
  and an integer of \<open>n\<close> digits is its own decimal, so the search ends at \<open>max 17 n\<close> digits.
\<close>

definition cand_norm :: "int \<Rightarrow> int \<Rightarrow> nat \<Rightarrow> int \<times> int" where
  "cand_norm s n k = (if 10 ^ k \<le> s then (10 ^ (k - 1), n + 1) else (s, n))"

definition round_trips :: "rat \<Rightarrow> nat \<Rightarrow> int \<times> int \<Rightarrow> bool" where
  "round_trips x k c \<longleftrightarrow> round_double (of_int (fst c) * 10 powi (snd c - int k)) = Fin x"

definition nearest_cand :: "rat \<Rightarrow> int \<Rightarrow> nat \<Rightarrow> int \<times> int" where
  "nearest_cand x n k = cand_norm (round_half_even (x / 10 powi (n - int k))) n k"

definition other_digits :: "rat \<Rightarrow> int \<Rightarrow> int" where
  "other_digits q s = (if s = \<lfloor>q\<rfloor> then \<lfloor>q\<rfloor> + 1 else \<lfloor>q\<rfloor>)"

definition other_cand :: "rat \<Rightarrow> int \<Rightarrow> nat \<Rightarrow> int \<times> int" where
  "other_cand x n k =
     cand_norm (other_digits (x / 10 powi (n - int k))
                  (round_half_even (x / 10 powi (n - int k)))) n k"

definition pick :: "rat \<Rightarrow> nat \<Rightarrow> int \<times> int \<Rightarrow> int \<times> int \<Rightarrow> (int \<times> int) option" where
  "pick x k c1 c2 =
     (if round_trips x k c1 then Some c1 else if round_trips x k c2 then Some c2 else None)"

definition digit_cand :: "rat \<Rightarrow> int \<Rightarrow> nat \<Rightarrow> (int \<times> int) option" where
  "digit_cand x n k = pick x k (nearest_cand x n k) (other_cand x n k)"

fun shortest :: "rat \<Rightarrow> int \<Rightarrow> nat \<Rightarrow> nat \<Rightarrow> int \<times> int \<times> nat" where
  "shortest x n k 0 =
     (case digit_cand x n k of
        Some c \<Rightarrow> (fst c, snd c, k)
      | None \<Rightarrow> (fst (nearest_cand x n k), snd (nearest_cand x n k), k))"
| "shortest x n k (Suc fuel) =
     (case digit_cand x n k of
        Some c \<Rightarrow> (fst c, snd c, k)
      | None \<Rightarrow> shortest x n (Suc k) fuel)"

definition num_digits :: "rat \<Rightarrow> int \<times> int \<times> nat" where
  "num_digits x = (let n = flog 10 x + 1 in shortest x n 1 (max 17 (nat n) - 1))"

text \<open>The digits laid out: plain decimal for \<open>-5 \<le> n \<le> 21\<close>, exponent notation otherwise.\<close>

definition pos_to_string :: "rat \<Rightarrow> jstring" where
  "pos_to_string x =
     (let (s, n, k) = num_digits x; ds = dec_digits s
      in if - 5 \<le> n \<and> n \<le> 21 then
           (if int k \<le> n then ds @ replicate (nat n - k) 0x30
            else if 0 < n then take (nat n) ds @ js ''.'' @ drop (nat n) ds
            else js ''0.'' @ replicate (nat (- n)) 0x30 @ ds)
         else
           (let ex = (if n < 0 then js ''-'' else js ''+'') @ dec_digits \<bar>n - 1\<bar>
            in if k = 1 then ds @ js ''e'' @ ex
               else take 1 ds @ js ''.'' @ drop 1 ds @ js ''e'' @ ex))"

definition num_to_string :: "jsnum \<Rightarrow> jstring" where
  "num_to_string v =
     (case v of
        NaN \<Rightarrow> js ''NaN''
      | PosInf \<Rightarrow> js ''Infinity''
      | NegInf \<Rightarrow> js ''-Infinity''
      | Fin x \<Rightarrow> if x = 0 then js ''0'' else if x < 0 then js ''-'' @ pos_to_string (- x)
                 else pos_to_string x)"

subsection \<open>\<^verbatim>\<open>Number.prototype.toFixed(2)\<close> on a finite number that is not negative\<close>

text \<open>From \<open>10 ^ 21\<close> on, \<^verbatim>\<open>toFixed\<close> returns what \<^verbatim>\<open>String\<close> returns. Below, \<open>n\<close> is the
  integer with \<open>n / 100\<close> nearest to the number, the larger one of two.\<close>

definition toFixed2 :: "rat \<Rightarrow> jstring" where
  "toFixed2 x =
     (if 10 ^ 21 \<le> x then num_to_string (Fin x)
      else
        let n = \<lfloor>x * 100 + 1 / 2\<rfloor>;
            m = (if n = 0 then js ''0'' else dec_digits n);
            m = (if length m \<le> 2 then replicate (3 - length m) 0x30 @ m else m);
            k = length m
        in take (k - 2) m @ js ''.'' @ drop (k - 2) m)"

subsection \<open>\<^verbatim>\<open>parseInt(s, 10)\<close> and \<^verbatim>\<open>parseFloat(s)\<close>\<close>

definition is_digit :: "cu \<Rightarrow> bool" where
  "is_digit c \<longleftrightarrow> 0x30 \<le> c \<and> c \<le> 0x39"

definition digits_val :: "jstring \<Rightarrow> int" where
  "digits_val ds = foldl (\<lambda>a c. 10 * a + (uint c - 48)) 0 ds"

definition split_sign :: "jstring \<Rightarrow> int \<times> jstring" where
  "split_sign s =
     (case s of
        [] \<Rightarrow> (1, [])
      | c # r \<Rightarrow> if c = 0x2D then (- 1, r) else if c = 0x2B then (1, r) else (1, s))"

text \<open>Leading white space, a sign, then the longest run of decimal digits; none is \<open>NaN\<close>.\<close>

definition parseInt :: "jstring \<Rightarrow> jsnum" where
  "parseInt s =
     (let (sign, r) = split_sign (trim_start s);
          z = takeWhile is_digit r
      in if z = [] then NaN else round_double (of_int (sign * digits_val z)))"

definition exponent_part :: "jstring \<Rightarrow> int" where
  "exponent_part r =
     (case r of
        [] \<Rightarrow> 0
      | c # t \<Rightarrow>
          if c = 0x65 \<or> c = 0x45 then
            (let (sign, t') = split_sign t; ed = takeWhile is_digit t'
             in if ed = [] then 0 else sign * digits_val ed)
          else 0)"

text \<open>Leading white space, then the longest prefix that is a \<open>StrDecimalLiteral\<close>: a sign,
  then \<^verbatim>\<open>Infinity\<close> or digits with an optional fraction and an optional exponent.\<close>

definition parseFloat :: "jstring \<Rightarrow> jsnum" where
  "parseFloat s =
     (let (sign, r) = split_sign (trim_start s)
      in if take 8 r = js ''Infinity'' then (if 0 < sign then PosInf else NegInf)
         else
           let ip = takeWhile is_digit r;
               r1 = dropWhile is_digit r;
               (fp, r2) = (case r1 of
                             [] \<Rightarrow> ([], r1)
                           | c # t \<Rightarrow> if c = 0x2E then (takeWhile is_digit t, dropWhile is_digit t)
                                      else ([], r1))
           in if ip = [] \<and> fp = [] then NaN
              else round_double
                (of_int sign * (of_int (digits_val (ip @ fp)) / 10 ^ length fp)
                   * 10 powi exponent_part r2))"

subsection \<open>\<^verbatim>\<open>String(v)\<close>\<close>

fun join_strs :: "jstring list \<Rightarrow> jstring" where
  "join_strs [] = []"
| "join_strs [x] = x"
| "join_strs (x # y # r) = x @ 0x2C # join_strs (y # r)"

fun collect :: "(js_error + 'a) list \<Rightarrow> js_error + 'a list" where
  "collect [] = Inr []"
| "collect (Inl e # r) = Inl e"
| "collect (Inr x # r) = (case collect r of Inl e \<Rightarrow> Inl e | Inr xs \<Rightarrow> Inr (x # xs))"

text \<open>
  \<^verbatim>\<open>String(v)\<close> is \<open>ToString\<close>. An array is joined with commas, \<^verbatim>\<open>null\<close> and \<^verbatim>\<open>undefined\<close>
  elements being empty. An object is converted by its \<^verbatim>\<open>toString\<close>: inherited, it gives
  \<^verbatim>\<open>"[object Object]"\<close>; an own property \<^verbatim>\<open>toString\<close> of a parsed object is never a function,
  \<^verbatim>\<open>valueOf\<close> then gives no primitive either, and the conversion throws a \<^verbatim>\<open>TypeError\<close>.
\<close>

fun js_String :: "jsval \<Rightarrow> js_error + jstring" where
  "js_String JUndefined = Inr (js ''undefined'')"
| "js_String JNull = Inr (js ''null'')"
| "js_String (JBool b) = Inr (if b then js ''true'' else js ''false'')"
| "js_String (JNum n) = Inr (num_to_string n)"
| "js_String (JStr s) = Inr s"
| "js_String (JArr xs) =
     (case collect (map (\<lambda>x. if x = JUndefined \<or> x = JNull then Inr [] else js_String x) xs) of
        Inl e \<Rightarrow> Inl e
      | Inr parts \<Rightarrow> Inr (join_strs parts))"
| "js_String (JObj kvs) =
     (case map_of kvs (js ''toString'') of
        Some f \<Rightarrow> Inl TypeError
      | None \<Rightarrow> Inr (js ''[object Object]''))"

section \<open>The sanitizers \<^verbatim>\<open>toInt\<close> and \<^verbatim>\<open>toMoney\<close>\<close>

text \<open>
  \<^verbatim>\<open>function toInt(v, min = 0, max = 1e9) {
    const n = Number.parseInt(String(v), 10);
    if (!Number.isFinite(n)) return 0;
    return Math.min(Math.max(n, min), max); }\<close>
\<close>

definition toInt :: "jsval \<Rightarrow> rat \<Rightarrow> rat \<Rightarrow> js_error + rat" where
  "toInt v mn mx =
     (case js_String v of
        Inl e \<Rightarrow> Inl e
      | Inr s \<Rightarrow>
          (case parseInt s of
             Fin n \<Rightarrow> Inr (min (max n mn) mx)
           | _ \<Rightarrow> Inr 0))"

text \<open>
  \<^verbatim>\<open>function toMoney(v) {
    const n = Number.parseFloat(String(v));
    if (!Number.isFinite(n) || n < 0) return "0.00";
    return n.toFixed(2); }\<close>
\<close>

definition toMoney :: "jsval \<Rightarrow> js_error + jstring" where
  "toMoney v =
     (case js_String v of
        Inl e \<Rightarrow> Inl e
      | Inr s \<Rightarrow>
          (case parseFloat s of
             Fin n \<Rightarrow> if n < 0 then Inr (js ''0.00'') else Inr (toFixed2 n)
           | _ \<Rightarrow> Inr (js ''0.00'')))"

section \<open>The request handler\<close>

subsection \<open>Requests, responses and the runtime\<close>

text \<open>
  The body of a request is a stream of chunks that ends or fails, read through
  \<^verbatim>\<open>request.body.getReader()\<close>, or, where there is no reader, the text that
  \<^verbatim>\<open>request.text()\<close> resolves to (\<open>None\<close>: it rejects).
\<close>

datatype stream_end = EndOfStream | StreamFails

datatype body_source = NoReader "jstring option" | Reader "byte list list" stream_end

record request =
  body :: body_source
  header :: "jstring \<Rightarrow> jstring option"

text \<open>The bindings of \<^verbatim>\<open>env\<close>; \<open>None\<close> is a binding that is not set.\<close>

record env =
  SIGNING_KEY :: "jstring option"
  APP_SCRIPT_URL :: "jstring option"
  ASSET_ID :: "jstring option"
  KID :: "jstring option"

text \<open>
  \<^verbatim>\<open>json(obj, status)\<close> answers with \<^verbatim>\<open>JSON.stringify(obj)\<close>; the response keeps the object that
  is serialised.
\<close>

record response =
  status :: nat
  content_type :: jstring
  object :: jsval

definition json :: "jsval \<Rightarrow> nat \<Rightarrow> response" where
  "json obj st =
     \<lparr>status = st, content_type = js ''application/json; charset=utf-8'', object = obj\<rparr>"

text \<open>The one outbound request, and what \<^verbatim>\<open>fetch\<close> gives back: it rejects, or there is a
  response with a status and a text, whose reading may fail (\<open>None\<close>).\<close>

record outbound =
  url :: "jstring option"
  http_method :: jstring
  headers :: "(jstring \<times> jstring option) list"
  payload :: jstring

datatype fetch_result = FetchFails | Responds nat "jstring option"

text \<open>
  What the worker takes from its runtime and does not compute itself: the text decoder and the
  JSON parser (\<open>None\<close>: a \<^verbatim>\<open>SyntaxError\<close>), the clock, the JSON serialiser, the digest and
  the keyed signature of \<^verbatim>\<open>crypto.subtle\<close> (\<open>None\<close>: the key import or the signing rejects),
  and the downstream endpoint behind \<^verbatim>\<open>fetch\<close>.
\<close>

record platform =
  text_decode :: "byte list \<Rightarrow> jstring"
  json_parse :: "jstring \<Rightarrow> jsval option"
  now_iso :: jstring
  json_stringify :: "jsval \<Rightarrow> jstring"
  sha256 :: "byte list \<Rightarrow> byte list"
  hmac_sha256 :: "byte list \<Rightarrow> byte list \<Rightarrow> byte list option"
  fetch :: "outbound \<Rightarrow> fetch_result"

text \<open>A step of the handler throws, returns a response to the caller, or goes on.\<close>

datatype 'a outcome = Throws js_error | Returns response | Continues 'a

subsection \<open>\<^verbatim>\<open>TextEncoder\<close>, \<^verbatim>\<open>btoa\<close>\<close>

text \<open>UTF-8 of a sequence of code units; a surrogate without its partner becomes U+FFFD.\<close>

definition utf8_cp :: "int \<Rightarrow> byte list" where
  "utf8_cp n =
     (if n < 0x80 then [of_int n]
      else if n < 0x800 then [of_int (0xC0 + n div 0x40), of_int (0x80 + n mod 0x40)]
      else if n < 0x10000 then
        [of_int (0xE0 + n div 0x1000), of_int (0x80 + n div 0x40 mod 0x40),
         of_int (0x80 + n mod 0x40)]
      else
        [of_int (0xF0 + n div 0x40000), of_int (0x80 + n div 0x1000 mod 0x40),
         of_int (0x80 + n div 0x40 mod 0x40), of_int (0x80 + n mod 0x40)])"

fun utf8_encode :: "jstring \<Rightarrow> byte list" where
  "utf8_encode [] = []"
| "utf8_encode [c] =
     (if 0xD800 \<le> c \<and> c \<le> 0xDFFF then utf8_cp 0xFFFD else utf8_cp (uint c))"
| "utf8_encode (c # d # r) =
     (if 0xD800 \<le> c \<and> c \<le> 0xDBFF \<and> 0xDC00 \<le> d \<and> d \<le> 0xDFFF then
        utf8_cp (0x10000 + (uint c - 0xD800) * 0x400 + (uint d - 0xDC00)) @ utf8_encode r
      else if 0xD800 \<le> c \<and> c \<le> 0xDFFF then utf8_cp 0xFFFD @ utf8_encode (d # r)
      else utf8_cp (uint c) @ utf8_encode (d # r))"

definition b64_char :: "int \<Rightarrow> cu" where
  "b64_char i =
     (if i < 26 then of_int (0x41 + i)
      else if i < 52 then of_int (0x61 + (i - 26))
      else if i < 62 then of_int (0x30 + (i - 52))
      else if i = 62 then 0x2B
      else 0x2F)"

text \<open>
  \<^verbatim>\<open>function b64(u8) {
    let s = ""; for (let i = 0; i < u8.length; i++) s += String.fromCharCode(u8[i]);
    return btoa(s); }\<close>
  Every code unit of \<open>s\<close> is a byte, so \<^verbatim>\<open>btoa\<close> does not throw.
\<close>

fun btoa :: "int list \<Rightarrow> jstring" where
  "btoa [] = []"
| "btoa [a] = [b64_char (a div 4), b64_char (a mod 4 * 16), 0x3D, 0x3D]"
| "btoa [a, b] =
     [b64_char (a div 4), b64_char (a mod 4 * 16 + b div 16), b64_char (b mod 16 * 4), 0x3D]"
| "btoa (a # b # c # r) =
     [b64_char (a div 4), b64_char (a mod 4 * 16 + b div 16),
      b64_char (b mod 16 * 4 + c div 64), b64_char (c mod 64)] @ btoa r"

definition b64 :: "byte list \<Rightarrow> jstring" where
  "b64 u8 = btoa (map uint u8)"

subsection \<open>\<^verbatim>\<open>readLimited\<close>\<close>

text \<open>
  \<^verbatim>\<open>function concat(chunks) {
    const total = chunks.reduce((n, c) => n + c.byteLength, 0);
    const out = new Uint8Array(total);
    let off = 0;
    for (const c of chunks) { out.set(c, off); off += c.byteLength; }
    return out; }\<close>
\<close>

definition set_at :: "byte list \<Rightarrow> byte list \<Rightarrow> nat \<Rightarrow> byte list" where
  "set_at out c off = take off out @ c @ drop (off + length c) out"

definition concat_chunks :: "byte list list \<Rightarrow> byte list" where
  "concat_chunks chunks =
     (let total = foldl (\<lambda>n c. n + length c) 0 chunks;
          out = replicate total 0
      in fst (foldl (\<lambda>(out, off) c. (set_at out c off, off + length c)) (out, 0) chunks))"

text \<open>
  The loop of \<^verbatim>\<open>readLimited\<close>: \<open>received\<close> and \<open>chunks\<close> are its variables, then come the
  chunks that the reader has not delivered yet. The result is paired with the chunks left
  unread when the function returns.
  \<^verbatim>\<open>while (true) {
    const { done, value } = await reader.read();
    if (done) break;
    received += value.byteLength;
    if (received > maxBytes) return null;
    chunks.push(value); }
  return concat(chunks);\<close>
\<close>

fun read_loop ::
  "nat \<Rightarrow> nat \<Rightarrow> byte list list \<Rightarrow> byte list list \<Rightarrow> stream_end
    \<Rightarrow> (js_error + byte list option) \<times> byte list list" where
  "read_loop maxBytes received chunks [] e =
     (case e of
        EndOfStream \<Rightarrow> (Inr (Some (concat_chunks chunks)), [])
      | StreamFails \<Rightarrow> (Inl ReadRejected, []))"
| "read_loop maxBytes received chunks (v # rest) e =
     (if received + length v > maxBytes then (Inr None, rest)
      else read_loop maxBytes (received + length v) (chunks @ [v]) rest e)"

text \<open>
  \<^verbatim>\<open>const reader = request.body?.getReader?.();
  if (!reader) {
    const t = await request.text().catch(() => "");
    const buf = new TextEncoder().encode(t);
    return buf.byteLength > maxBytes ? null : buf; }\<close>
\<close>

definition readLimited ::
  "request \<Rightarrow> nat \<Rightarrow> (js_error + byte list option) \<times> byte list list" where
  "readLimited rq maxBytes =
     (case body rq of
        NoReader t \<Rightarrow>
          (let buf = utf8_encode (case t of None \<Rightarrow> [] | Some x \<Rightarrow> x)
           in (Inr (if length buf > maxBytes then None else Some buf), []))
      | Reader cs e \<Rightarrow> read_loop maxBytes 0 [] cs e)"

subsection \<open>Property access\<close>

text \<open>
  \<open>own_prop\<close> reads a property of a value that is neither \<^verbatim>\<open>null\<close> nor \<^verbatim>\<open>undefined\<close>. The
  worker reads \<^verbatim>\<open>rows\<close>, \<^verbatim>\<open>timestamp\<close>, \<^verbatim>\<open>item\<close>, \<^verbatim>\<open>qty\<close>, \<^verbatim>\<open>subtotal\<close>, \<^verbatim>\<open>vat\<close>, \<^verbatim>\<open>total\<close> and
  the five delivery and contact names; none is a property of a primitive, of an array or of a
  built-in prototype, so only an object's own properties count. Reading a property of
  \<^verbatim>\<open>null\<close> or \<^verbatim>\<open>undefined\<close> throws.
\<close>

definition own_prop :: "jsval \<Rightarrow> jstring \<Rightarrow> jsval" where
  "own_prop v k =
     (case v of
        JObj kvs \<Rightarrow> (case map_of kvs k of Some x \<Rightarrow> x | None \<Rightarrow> JUndefined)
      | _ \<Rightarrow> JUndefined)"

definition nullish :: "jsval \<Rightarrow> bool" where
  "nullish v \<longleftrightarrow> v = JUndefined \<or> v = JNull"

definition falsy :: "jsval \<Rightarrow> bool" where
  "falsy v \<longleftrightarrow>
     v = JUndefined \<or> v = JNull \<or> v = JBool False \<or> v = JNum (Fin 0) \<or> v = JNum NaN \<or> v = JStr []"

definition typeof_object :: "jsval \<Rightarrow> bool" where
  "typeof_object v = (case v of JNull \<Rightarrow> True | JArr xs \<Rightarrow> True | JObj kvs \<Rightarrow> True | _ \<Rightarrow> False)"

text \<open>
  \<^verbatim>\<open>function getOpt(obj, key) {
    if (!obj || typeof obj !== "object") return undefined;
    return obj[key]; }\<close>
\<close>

definition getOpt :: "jsval \<Rightarrow> jstring \<Rightarrow> jsval" where
  "getOpt obj k = (if falsy obj \<or> \<not> typeof_object obj then JUndefined else own_prop obj k)"

subsection \<open>Rows\<close>

record sanitized_row =
  timestamp :: jstring
  item_name :: jstring
  qty :: rat
  subtotal_usd :: jstring
  vat_usd :: jstring
  total_usd :: jstring
  currency :: jstring
  iva_rate :: jsnum

definition IVA_RATE :: jsnum where
  "IVA_RATE = round_double (15 / 100)"

definition row_object :: "sanitized_row \<Rightarrow> jsval" where
  "row_object r =
     JObj [(js ''timestamp'', JStr (timestamp r)), (js ''item_name'', JStr (item_name r)),
           (js ''qty'', JNum (Fin (qty r))), (js ''subtotal_usd'', JStr (subtotal_usd r)),
           (js ''vat_usd'', JStr (vat_usd r)), (js ''total_usd'', JStr (total_usd r)),
           (js ''currency'', JStr (currency r)), (js ''iva_rate'', JNum (iva_rate r))]"

definition invalid_row :: "jstring \<Rightarrow> rat \<Rightarrow> response" where
  "invalid_row name q =
     json (JObj [(js ''ok'', JBool False), (js ''error'', JStr (js ''invalid_row'')),
                 (js ''hint'', JObj [(js ''item_name'', JStr name), (js ''qty'', JNum (Fin q))])])
       422"

text \<open>
  The body of the loop over \<^verbatim>\<open>dataRows\<close>, for one row \<open>r\<close>: it throws, returns the
  \<^verbatim>\<open>invalid_row\<close> response, or has a row to push.
  \<^verbatim>\<open>const timestamp = safeText(r.timestamp, 64);
  const item_name = safeText(r.item, 96);
  const qty = toInt(r.qty, 1, 9999);
  const subtotal_usd = toMoney(r.subtotal);
  const vat_usd = toMoney(r.vat);
  const total_usd = toMoney(r.total);
  if (!timestamp || !item_name || qty <= 0) {
    return json({ ok: false, error: "invalid_row", hint: { item_name, qty } }, 422); }
  norm.push({ timestamp, item_name, qty, subtotal_usd, vat_usd, total_usd,
              currency: "USD", iva_rate: IVA_RATE });\<close>
\<close>

definition sanitize_row :: "jsval \<Rightarrow> sanitized_row outcome" where
  "sanitize_row r =
     (if nullish r then Throws TypeError
      else
        let ts = safeText (own_prop r (js ''timestamp'')) 64;
            name = safeText (own_prop r (js ''item'')) 96
        in case toInt (own_prop r (js ''qty'')) 1 9999 of
             Inl e \<Rightarrow> Throws e
           | Inr q \<Rightarrow>
               (case toMoney (own_prop r (js ''subtotal'')) of
                  Inl e \<Rightarrow> Throws e
                | Inr sub \<Rightarrow>
                    (case toMoney (own_prop r (js ''vat'')) of
                       Inl e \<Rightarrow> Throws e
                     | Inr vat \<Rightarrow>
                         (case toMoney (own_prop r (js ''total'')) of
                            Inl e \<Rightarrow> Throws e
                          | Inr tot \<Rightarrow>
                              if ts = [] \<or> name = [] \<or> q \<le> 0 then Returns (invalid_row name q)
                              else Continues
                                \<lparr>timestamp = ts, item_name = name, qty = q, subtotal_usd = sub,
                                 vat_usd = vat, total_usd = tot, currency = js ''USD'',
                                 iva_rate = IVA_RATE\<rparr>))))"

text \<open>\<^verbatim>\<open>for (const r of dataRows) { ... }\<close> with the rows pushed to \<^verbatim>\<open>norm\<close> so far in \<open>acc\<close>.\<close>

fun norm_loop :: "jsval list \<Rightarrow> sanitized_row list \<Rightarrow> sanitized_row list outcome" where
  "norm_loop [] acc = Continues acc"
| "norm_loop (r # rs) acc =
     (case sanitize_row r of
        Throws e \<Rightarrow> Throws e
      | Returns resp \<Rightarrow> Returns resp
      | Continues row \<Rightarrow> norm_loop rs (acc @ [row]))"

subsection \<open>\<^verbatim>\<open>handleSave\<close>\<close>

definition MAX_BYTES :: nat where
  "MAX_BYTES = 64 * 1024"

definition error_response :: "string \<Rightarrow> nat \<Rightarrow> response" where
  "error_response code st = json (JObj [(js ''ok'', JBool False), (js ''error'', JStr (js code))]) st"

text \<open>
  \<^verbatim>\<open>const isArrayOnly = Array.isArray(rows);
  const dataRows = isArrayOnly ? rows : (Array.isArray(rows?.rows) ? rows.rows : null);\<close>
\<close>

definition dataRows_of :: "jsval \<Rightarrow> jsval list option" where
  "dataRows_of rows =
     (case rows of
        JArr xs \<Rightarrow> Some xs
      | _ \<Rightarrow>
          (case (if nullish rows then JUndefined else own_prop rows (js ''rows'')) of
             JArr ys \<Rightarrow> Some ys
           | _ \<Rightarrow> None))"

definition is_array :: "jsval \<Rightarrow> bool" where
  "is_array v = (case v of JArr xs \<Rightarrow> True | _ \<Rightarrow> False)"

text \<open>\<^verbatim>\<open>request.headers.get(a) || request.headers.get(b) || ""\<close>, and the same with one name.\<close>

definition first_header :: "request \<Rightarrow> jstring list \<Rightarrow> jstring" where
  "first_header rq names =
     foldr (\<lambda>n rest. case header rq n of None \<Rightarrow> rest | Some v \<Rightarrow> if v = [] then rest else v)
       names []"

text \<open>The payload object of step 3, with its properties in the order of the source.\<close>

definition build_payload :: "request \<Rightarrow> jsval \<Rightarrow> sanitized_row list \<Rightarrow> jsval" where
  "build_payload rq rows nrm =
     (let wrapper = (if is_array rows then JNull else rows)
      in JObj
        [(js ''rows'', JArr (map row_object nrm)),
         (js ''source_ip'',
            JStr (first_header rq [js ''CF-Connecting-IP'', js ''X-Forwarded-For''])),
         (js ''user_agent'', JStr (first_header rq [js ''User-Agent''])),
         (js ''delivery_address'', JStr (safeText (getOpt wrapper (js ''delivery_address'')) 200)),
         (js ''whatsapp'', JStr (safeText (getOpt wrapper (js ''whatsapp'')) 50)),
         (js ''email'', JStr (safeText (getOpt wrapper (js ''email'')) 120)),
         (js ''delivery_lat'', JStr (safeText (getOpt wrapper (js ''delivery_lat'')) 32)),
         (js ''delivery_lng'', JStr (safeText (getOpt wrapper (js ''delivery_lng'')) 32)),
         (js ''status'', JStr (js ''pending''))])"

text \<open>
  \<^verbatim>\<open>async function sha256base64(str) {
    const data = new TextEncoder().encode(str);
    const digest = await crypto.subtle.digest("SHA-256", data);
    return b64(new Uint8Array(digest)); }\<close>
\<close>

definition sha256base64 :: "platform \<Rightarrow> jstring \<Rightarrow> jstring" where
  "sha256base64 P str = b64 (sha256 P (utf8_encode str))"

text \<open>\<^verbatim>\<open>hmacSha256Base64(secret, message)\<close>: the key is the UTF-8 of \<^verbatim>\<open>String(secret)\<close>.\<close>

definition hmacSha256Base64 :: "platform \<Rightarrow> jstring option \<Rightarrow> jstring \<Rightarrow> js_error + jstring" where
  "hmacSha256Base64 P secret message =
     (case hmac_sha256 P
             (utf8_encode (case secret of None \<Rightarrow> js ''undefined'' | Some k \<Rightarrow> k))
             (utf8_encode message) of
        None \<Rightarrow> Inl SignRejected
      | Some sig \<Rightarrow> Inr (b64 sig))"

text \<open>Step 4 and the request of step 5: the signed envelope around the payload.\<close>

definition sign_payload :: "platform \<Rightarrow> env \<Rightarrow> jsval \<Rightarrow> outbound outcome" where
  "sign_payload P ev pl =
     (let tsHeader = now_iso P;
          bodyString = json_stringify P pl;
          bodyHash = sha256base64 P bodyString
      in case hmacSha256Base64 P (SIGNING_KEY ev) (tsHeader @ js ''.'' @ bodyHash) of
           Inl e \<Rightarrow> Throws e
         | Inr signature \<Rightarrow>
             Continues
               \<lparr>url = APP_SCRIPT_URL ev, http_method = js ''POST'',
                headers =
                  [(js ''Content-Type'', Some (js ''application/json'')),
                   (js ''X-Asset-ID'', ASSET_ID ev),
                   (js ''X-KID'', KID ev),
                   (js ''X-Timestamp'', Some tsHeader),
                   (js ''X-Body-Hash'', Some bodyHash),
                   (js ''X-Signature'', Some signature)],
                payload = bodyString\<rparr>)"

text \<open>Steps 1 to 4 of \<^verbatim>\<open>handleSave\<close>: everything before the call of \<^verbatim>\<open>fetch\<close>.\<close>

definition prepare :: "platform \<Rightarrow> env \<Rightarrow> request \<Rightarrow> outbound outcome" where
  "prepare P ev rq =
     (case fst (readLimited rq MAX_BYTES) of
        Inl e \<Rightarrow> Throws e
      | Inr None \<Rightarrow> Returns (error_response ''payload_too_large'' 413)
      | Inr (Some buf) \<Rightarrow>
          (case json_parse P (text_decode P buf) of
             None \<Rightarrow> Returns (error_response ''invalid_json'' 400)
           | Some rows \<Rightarrow>
               (case dataRows_of rows of
                  None \<Rightarrow> Returns (error_response ''empty_rows'' 400)
                | Some dataRows \<Rightarrow>
                    if dataRows = [] then Returns (error_response ''empty_rows'' 400)
                    else
                      (case norm_loop dataRows [] of
                         Throws e \<Rightarrow> Throws e
                       | Returns resp \<Rightarrow> Returns resp
                       | Continues nrm \<Rightarrow> sign_payload P ev (build_payload rq rows nrm)))))"

text \<open>\<^verbatim>\<open>/success/i.test(text)\<close>. Without the \<^verbatim>\<open>u\<close> flag a code unit is compared by its upper
  case, and a code unit outside ASCII never stands for an ASCII one, so the seven letters
  match in either ASCII case only.\<close>

definition canon :: "cu \<Rightarrow> cu" where
  "canon c = (if 0x61 \<le> c \<and> c \<le> 0x7A then c - 0x20 else c)"

fun matches_success :: "jstring \<Rightarrow> bool" where
  "matches_success [] = False"
| "matches_success (c # cs) =
     (map canon (take 7 (c # cs)) = js ''SUCCESS'' \<or> matches_success cs)"

definition res_ok :: "nat \<Rightarrow> bool" where
  "res_ok st \<longleftrightarrow> 200 \<le> st \<and> st \<le> 299"

text \<open>
  Step 5, after the request is built: the result and the list of the calls of \<^verbatim>\<open>fetch\<close>.
  \<^verbatim>\<open>const text = await res.text().catch(() => "");
  if (res.ok && /success/i.test(text)) { return json({ ok: true, forwarded: true }); }
  return json({ ok: false, forwarded: false, status: res.status, body: text.slice(0, 3000) }, 502);\<close>
\<close>

definition relay :: "platform \<Rightarrow> outbound \<Rightarrow> (js_error + response) \<times> outbound list" where
  "relay P call =
     (case fetch P call of
        FetchFails \<Rightarrow> (Inl FetchRejected, [call])
      | Responds st t \<Rightarrow>
          (let text = (case t of None \<Rightarrow> [] | Some x \<Rightarrow> x)
           in if res_ok st \<and> matches_success text then
                (Inr (json (JObj [(js ''ok'', JBool True), (js ''forwarded'', JBool True)]) 200),
                 [call])
              else
                (Inr (json (JObj [(js ''ok'', JBool False), (js ''forwarded'', JBool False),
                                  (js ''status'', JNum (Fin (of_nat st))),
                                  (js ''body'', JStr (take 3000 text))]) 502),
                 [call])))"

definition handleSave ::
  "platform \<Rightarrow> env \<Rightarrow> request \<Rightarrow> (js_error + response) \<times> outbound list" where
  "handleSave P ev rq =
     (case prepare P ev rq of
        Throws e \<Rightarrow> (Inl e, [])
      | Returns resp \<Rightarrow> (Inr resp, [])
      | Continues call \<Rightarrow> relay P call)"

section \<open>Notions and scenarios of the specification\<close>

text \<open>The length of a request body in bytes: the chunks of a stream together, or the UTF-8
  encoding of the text read at once.\<close>

definition body_length :: "request \<Rightarrow> nat" where
  "body_length rq =
     (case body rq of
        NoReader t \<Rightarrow> length (utf8_encode (case t of None \<Rightarrow> [] | Some x \<Rightarrow> x))
      | Reader cs e \<Rightarrow> sum_list (map length cs))"

text \<open>
  A runtime for the scenarios of the specification: the decoder reads ASCII, the parser knows
  the one source text \<open>src\<close> and its value, the clock stands still, the serialiser and the
  digests are constant (the signature rejects an empty key), and the downstream endpoint
  gives the one answer \<open>downstream\<close>.
\<close>

definition ascii_bytes :: "string \<Rightarrow> byte list" where
  "ascii_bytes s = map (\<lambda>c. of_nat (of_char c)) s"

definition scenario_platform :: "string \<Rightarrow> jsval \<Rightarrow> fetch_result \<Rightarrow> platform" where
  "scenario_platform src parsed downstream =
     \<lparr>text_decode = map ucast,
      json_parse = (\<lambda>s. if s = js src then Some parsed else None),
      now_iso = js ''2024-05-01T12:00:00.000Z'',
      json_stringify = (\<lambda>v. js ''{}''),
      sha256 = (\<lambda>b. replicate 32 0),
      hmac_sha256 = (\<lambda>k m. if k = [] then None else Some (replicate 32 0)),
      fetch = (\<lambda>c. downstream)\<rparr>"

definition scenario_env :: env where
  "scenario_env =
     \<lparr>SIGNING_KEY = Some (js ''secret''), APP_SCRIPT_URL = Some (js ''https://downstream.example/exec''),
      ASSET_ID = Some (js ''asset''), KID = Some (js ''kid'')\<rparr>"

definition scenario_request :: "string \<Rightarrow> request" where
  "scenario_request src = \<lparr>body = Reader [ascii_bytes src] EndOfStream, header = (\<lambda>n. None)\<rparr>"

definition scenario_A_text :: string where
  "scenario_A_text = ''[{\"timestamp\":\"t1\",\"item\":\"Coffee\",\"qty\":\"2\",\"subtotal\":\"3\",\"vat\":\"0.45\",\"total\":\"3.45\"}]''"

definition scenario_A_row :: jsval where
  "scenario_A_row =
     JObj [(js ''timestamp'', JStr (js ''t1'')), (js ''item'', JStr (js ''Coffee'')),
           (js ''qty'', JStr (js ''2'')), (js ''subtotal'', JStr (js ''3'')),
           (js ''vat'', JStr (js ''0.45'')), (js ''total'', JStr (js ''3.45''))]"

text \<open>Two rows: the quantity of the first is an object with an own property \<^verbatim>\<open>toString\<close>,
  the second has an empty timestamp.\<close>

definition unprintable_qty_row :: jsval where
  "unprintable_qty_row =
     JObj [(js ''timestamp'', JStr (js ''t1'')), (js ''item'', JStr (js ''Coffee'')),
           (js ''qty'', JObj [(js ''toString'', JNum (Fin 1))])]"

definition empty_timestamp_row :: jsval where
  "empty_timestamp_row =
     JObj [(js ''timestamp'', JStr []), (js ''item'', JStr (js ''Tea'')),
           (js ''qty'', JNum (Fin 1))]"

definition two_rows_text :: string where
  "two_rows_text = ''[{\"timestamp\":\"t1\",\"item\":\"Coffee\",\"qty\":{\"toString\":1}},{\"timestamp\":\"\",\"item\":\"Tea\",\"qty\":1}]''"

section \<open>Notions for the proofs about numbers\<close>

text \<open>The binary exponent at which a rational is rounded, the rationals that are doubles, and
  the negation of a Number.\<close>

definition bexp :: "rat \<Rightarrow> int" where
  "bexp a = max (flog 2 \<bar>a\<bar>) (- 1022)"

definition is_double :: "rat \<Rightarrow> bool" where
  "is_double x \<longleftrightarrow> round_double x = Fin x"

definition jneg :: "jsnum \<Rightarrow> jsnum" where
  "jneg v = (case v of NaN \<Rightarrow> NaN | PosInf \<Rightarrow> NegInf | NegInf \<Rightarrow> PosInf | Fin x \<Rightarrow> Fin (- x))"

text \<open>A row whose quantity is the number 0, and a row whose quantity is a word.\<close>

definition zero_qty_row :: jsval where
  "zero_qty_row =
     JObj [(js ''timestamp'', JStr (js ''t1'')), (js ''item'', JStr (js ''Coffee'')),
           (js ''qty'', JNum (Fin 0))]"

definition word_qty_row :: jsval where
  "word_qty_row =
     JObj [(js ''timestamp'', JStr (js ''t1'')), (js ''item'', JStr (js ''Coffee'')),
           (js ''qty'', JStr (js ''many''))]"

section \<open>Properties of \<^verbatim>\<open>safeText\<close>\<close>

lemma replace_ctl_runs_spec_strip:
  "replace_ctl_runs (strip_angle cs) = spec_strip False cs \<and>
   replace_ctl_runs (dropWhile is_ctl (strip_angle cs)) = spec_strip True cs"
proof (induction cs)
  case Nil
  show ?case by (simp add: strip_angle_def)
next
  case (Cons c cs)
  show ?case
  proof (cases "c = 0x3C \<or> c = 0x3E")
    case True
    with Cons show ?thesis by (auto simp: strip_angle_def)
  next
    case False
    then have s: "strip_angle (c # cs) = c # strip_angle cs"
      by (simp add: strip_angle_def)
    show ?thesis
      using Cons False unfolding s by (cases "is_ctl c") (simp_all add: is_ctl_def [symmetric])
  qed
qed

lemma trim_spec_trim: "trim s = spec_trim s"
proof -
  define t where "t = dropWhile is_space s"
  have "rev (dropWhile is_space (rev t)) = take (length t - length (takeWhile is_space (rev t))) t"
  proof -
    have "rev t = takeWhile is_space (rev t) @ dropWhile is_space (rev t)"
      by simp
    then have "t = rev (dropWhile is_space (rev t)) @ rev (takeWhile is_space (rev t))"
      by (metis rev_append rev_rev_ident)
    moreover have "length (rev (dropWhile is_space (rev t)))
        = length t - length (takeWhile is_space (rev t))"
      by (metis add_diff_cancel_left' length_append length_rev takeWhile_dropWhile_id)
    ultimately show ?thesis
      by (metis append_eq_conv_conj)
  qed
  then show ?thesis
    by (simp add: trim_def trim_end_def trim_start_def spec_trim_def t_def Let_def)
qed

lemma safeText_spec: "safeText (JStr s) m = spec_safeText s m"
  by (simp add: safeText_def spec_safeText_def Let_def trim_spec_trim [symmetric]
      replace_ctl_runs_spec_strip)

lemma set_replace_ctl_runs:
  "set (replace_ctl_runs s) \<subseteq> insert 0x20 {c \<in> set s. \<not> is_ctl c}"
proof (induction s rule: replace_ctl_runs.induct)
  case 1
  show ?case by simp
next
  case (2 c cs)
  show ?case
  proof (cases "is_ctl c")
    case True
    with 2 have "set (replace_ctl_runs (dropWhile is_ctl cs))
        \<subseteq> insert 0x20 {c \<in> set (dropWhile is_ctl cs). \<not> is_ctl c}"
      by simp
    moreover have "set (dropWhile is_ctl cs) \<subseteq> set cs"
      by (auto dest: set_dropWhileD)
    ultimately show ?thesis using True by auto
  next
    case False
    with 2 show ?thesis by auto
  qed
qed

lemma set_trim: "set (trim s) \<subseteq> set s"
  by (auto simp: trim_def trim_end_def trim_start_def dest!: set_dropWhileD)

lemma safeText_chars:
  "c \<in> set (safeText v m) \<Longrightarrow> c \<noteq> 0x3C \<and> c \<noteq> 0x3E \<and> \<not> c \<le> 0x1F"
proof -
  assume a: "c \<in> set (safeText v m)"
  then obtain x where v: "v = JStr x"
    by (cases v) (simp_all add: safeText_def)
  from a v have "c \<in> set (trim (replace_ctl_runs (strip_angle x)))"
    by (auto simp: safeText_def Let_def split: if_splits dest: in_set_takeD)
  then have "c \<in> set (replace_ctl_runs (strip_angle x))"
    using set_trim by blast
  then have "c = 0x20 \<or> (c \<in> set (strip_angle x) \<and> \<not> is_ctl c)"
    using set_replace_ctl_runs by blast
  then show ?thesis
    by (auto simp: strip_angle_def is_ctl_def)
qed

lemma safeText_length: "length (safeText v m) \<le> m"
  by (cases v) (simp_all add: safeText_def Let_def)

text \<open>
  Claim C8. For every value, \<^verbatim>\<open>safeText(value, maxLen)\<close> is the empty string when the value is
  not a string; for a string it is the string with \<^verbatim>\<open><\<close>, \<^verbatim>\<open>>\<close> and the control code units
  0 to 31 stripped, every stripped run of control code units leaving one space, then
  trimmed, then cut to \<open>maxLen\<close>. The result has at most \<open>maxLen\<close> code units, none of them
  \<^verbatim>\<open><\<close>, \<^verbatim>\<open>>\<close> or a control code unit, and \<^verbatim>\<open><script>x</script>\<close> becomes \<^verbatim>\<open>scriptx/script\<close>.
\<close>

theorem safeText_as_specified:
  "safeText v maxLen = (case v of JStr s \<Rightarrow> spec_safeText s maxLen | _ \<Rightarrow> [])
   \<and> length (safeText v maxLen) \<le> maxLen
   \<and> list_all (\<lambda>c. c \<noteq> 0x3C \<and> c \<noteq> 0x3E \<and> 0x1F < c) (safeText v maxLen)
   \<and> safeText (JStr (js ''<script>x</script>'')) 96 = js ''scriptx/script''"
proof -
  have "safeText v maxLen = (case v of JStr s \<Rightarrow> spec_safeText s maxLen | _ \<Rightarrow> [])"
    by (cases v) (simp_all add: safeText_spec, simp_all add: safeText_def)
  moreover have "list_all (\<lambda>c. c \<noteq> 0x3C \<and> c \<noteq> 0x3E \<and> 0x1F < c) (safeText v maxLen)"
    using safeText_chars [of _ v maxLen] by (auto simp: list_all_iff not_le)
  moreover have "safeText (JStr (js ''<script>x</script>'')) 96 = js ''scriptx/script''"
    by code_simp
  ultimately show ?thesis
    using safeText_length by blast
qed

theorem safeText_as_specified_witness:
  "safeText (JStr (js ''a<b'' @ [0x0A, 0x0D] @ js ''c d '')) 5 = js ''ab c ''
   \<and> safeText (JNum (Fin 7)) 5 = []"
proof -
  have "spec_safeText (js ''a<b'' @ [0x0A, 0x0D] @ js ''c d '') 5 = js ''ab c ''"
    by code_simp
  then show ?thesis
    using safeText_as_specified [of "JStr (js ''a<b'' @ [0x0A, 0x0D] @ js ''c d '')" 5]
      safeText_as_specified [of "JNum (Fin 7)" 5]
    by simp
qed

section \<open>The bounded reader\<close>

lemma foldl_set_at:
  "length out = off + sum_list (map length cs) + k \<Longrightarrow>
   foldl (\<lambda>(out, off) c. (set_at out c off, off + length c)) (out, off) cs
     = (take off out @ concat cs @ drop (off + sum_list (map length cs)) out,
        off + sum_list (map length cs))"
proof (induction cs arbitrary: out off)
  case Nil
  show ?case by simp
next
  case (Cons c cs)
  have l: "length (set_at out c off) = (off + length c) + sum_list (map length cs) + k"
    using Cons.prems by (simp add: set_at_def)
  have t: "take (off + length c) (set_at out c off) = take off out @ c"
    using Cons.prems by (simp add: set_at_def)
  have d: "drop (off + (length c + sum_list (map length cs))) (set_at out c off)
      = drop (off + (length c + sum_list (map length cs))) out"
    using Cons.prems by (simp add: set_at_def ac_simps)
  show ?case
    using Cons.IH [OF l] by (simp add: t d add.assoc)
qed

lemma foldl_total: "foldl (\<lambda>n c. n + length c) a cs = a + sum_list (map length cs)"
  by (induction cs arbitrary: a) simp_all

lemma concat_chunks_concat: "concat_chunks cs = concat cs"
  using foldl_set_at [of "replicate (sum_list (map length cs)) 0" 0 cs 0]
  by (simp add: concat_chunks_def foldl_total)

lemma read_loop_over:
  "received \<le> m \<Longrightarrow> m < received + sum_list (map length cs) \<Longrightarrow>
   \<exists>pre v post. cs = pre @ v # post
     \<and> received + sum_list (map length pre) \<le> m
     \<and> m < received + sum_list (map length pre) + length v
     \<and> read_loop m received chunks cs e = (Inr None, post)"
proof (induction cs arbitrary: received chunks)
  case Nil
  then show ?case by simp
next
  case (Cons c cs)
  show ?case
  proof (cases "m < received + length c")
    case True
    then have "read_loop m received chunks (c # cs) e = (Inr None, cs)"
      by simp
    with True Cons.prems show ?thesis
      by (intro exI [of _ "[]"] exI [of _ c] exI [of _ cs]) simp
  next
    case False
    then have le: "received + length c \<le> m" by simp
    have "m < (received + length c) + sum_list (map length cs)"
      using Cons.prems by simp
    from Cons.IH [OF le this, of "chunks @ [c]"]
    obtain pre v post where p: "cs = pre @ v # post"
      "received + length c + sum_list (map length pre) \<le> m"
      "m < received + length c + sum_list (map length pre) + length v"
      "read_loop m (received + length c) (chunks @ [c]) cs e = (Inr None, post)"
      by blast
    show ?thesis
      using p False
      by (intro exI [of _ "c # pre"] exI [of _ v] exI [of _ post]) (simp add: add.assoc)
  qed
qed

lemma read_loop_within:
  "received + sum_list (map length cs) \<le> m \<Longrightarrow>
   read_loop m received chunks cs EndOfStream = (Inr (Some (concat (chunks @ cs))), [])"
  by (induction cs arbitrary: received chunks) (simp_all add: concat_chunks_concat add.assoc)

lemma readLimited_oversize:
  "maxBytes < body_length rq \<Longrightarrow> fst (readLimited rq maxBytes) = Inr None"
proof (cases "body rq")
  case (NoReader t)
  assume "maxBytes < body_length rq"
  with NoReader show ?thesis
    by (simp add: readLimited_def body_length_def Let_def)
next
  case (Reader cs e)
  assume "maxBytes < body_length rq"
  with Reader have "maxBytes < 0 + sum_list (map length cs)"
    by (simp add: body_length_def)
  from read_loop_over [OF _ this, of "[]" e] Reader show ?thesis
    by (auto simp: readLimited_def)
qed

text \<open>
  Claim C2. A request whose body is longer than 65536 bytes is answered with
  \<^verbatim>\<open>payload_too_large\<close> (status 413) whatever the runtime and the environment are, and
  \<^verbatim>\<open>fetch\<close> is not called. On a stream the reader stops at the first chunk with which the
  count of received bytes exceeds the ceiling, leaving the later chunks unread; without a
  reader the whole encoded text is measured after it has been read.
\<close>

theorem oversize_rejected:
  assumes "65536 < body_length rq"
  shows "handleSave P ev rq
           = (Inr (json (JObj [(js ''ok'', JBool False),
                               (js ''error'', JStr (js ''payload_too_large''))]) 413), [])
         \<and> (\<forall>cs e. body rq = Reader cs e \<longrightarrow>
               (\<exists>pre v post. cs = pre @ v # post
                  \<and> sum_list (map length pre) \<le> 65536
                  \<and> 65536 < sum_list (map length pre) + length v
                  \<and> readLimited rq 65536 = (Inr None, post)))
         \<and> (\<forall>t. body rq = NoReader t \<longrightarrow>
               65536 < length (utf8_encode (case t of None \<Rightarrow> [] | Some x \<Rightarrow> x))
               \<and> readLimited rq 65536 = (Inr None, []))"
proof -
  have "fst (readLimited rq MAX_BYTES) = Inr None"
    using assms readLimited_oversize [of MAX_BYTES rq] by (simp add: MAX_BYTES_def)
  then have "prepare P ev rq = Returns (error_response ''payload_too_large'' 413)"
    by (simp add: prepare_def)
  then have a: "handleSave P ev rq
      = (Inr (json (JObj [(js ''ok'', JBool False),
                          (js ''error'', JStr (js ''payload_too_large''))]) 413), [])"
    by (simp add: handleSave_def error_response_def)
  have b: "\<exists>pre v post. cs = pre @ v # post
        \<and> sum_list (map length pre) \<le> 65536
        \<and> 65536 < sum_list (map length pre) + length v
        \<and> readLimited rq 65536 = (Inr None, post)" if r: "body rq = Reader cs e" for cs e
  proof -
    from r assms have "65536 < 0 + sum_list (map length cs)"
      by (simp add: body_length_def)
    from read_loop_over [OF _ this, of "[]" e] r show ?thesis
      by (simp add: readLimited_def)
  qed
  have c: "65536 < length (utf8_encode (case t of None \<Rightarrow> [] | Some x \<Rightarrow> x))
      \<and> readLimited rq 65536 = (Inr None, [])" if r: "body rq = NoReader t" for t
    using r assms by (simp add: readLimited_def body_length_def Let_def)
  from a b c show ?thesis by blast
qed

theorem oversize_rejected_witness:
  "handleSave (scenario_platform [] JNull FetchFails) scenario_env
     \<lparr>body = Reader [replicate 40000 0, replicate 30000 0, replicate 5 0] EndOfStream,
      header = (\<lambda>n. None)\<rparr>
     = (Inr (json (JObj [(js ''ok'', JBool False),
                         (js ''error'', JStr (js ''payload_too_large''))]) 413), [])
   \<and> readLimited \<lparr>body = Reader [replicate 40000 0, replicate 30000 0, replicate 5 0] EndOfStream,
                   header = (\<lambda>n. None)\<rparr> 65536 = (Inr None, [replicate 5 0])"
proof -
  let ?rq = "\<lparr>body = Reader [replicate 40000 0, replicate 30000 0, replicate 5 0] EndOfStream,
              header = (\<lambda>n. None)\<rparr>"
  have "65536 < body_length ?rq"
    by (simp add: body_length_def)
  moreover have "readLimited ?rq 65536 = (Inr None, [replicate 5 0])"
    by (simp add: readLimited_def)
  ultimately show ?thesis
    using oversize_rejected [of ?rq "scenario_platform [] JNull FetchFails" scenario_env] by simp
qed

section \<open>The relay\<close>

lemma length_SUCCESS: "map canon w = js ''SUCCESS'' \<Longrightarrow> length w = 7"
proof -
  assume "map canon w = js ''SUCCESS''"
  then have "length (map canon w) = length (js ''SUCCESS'')" by simp
  then show ?thesis by (simp add: js_def)
qed

lemma matches_success_iff:
  "matches_success s \<longleftrightarrow> (\<exists>pre w post. s = pre @ w @ post \<and> map canon w = js ''SUCCESS'')"
proof (induction s)
  case Nil
  show ?case by (simp add: js_def)
next
  case (Cons c cs)
  show ?case
  proof
    assume "matches_success (c # cs)"
    then consider "map canon (take 7 (c # cs)) = js ''SUCCESS''" | "matches_success cs"
      by auto
    then show "\<exists>pre w post. c # cs = pre @ w @ post \<and> map canon w = js ''SUCCESS''"
    proof cases
      case 1
      have "c # cs = [] @ take 7 (c # cs) @ drop 7 (c # cs)" by simp
      with 1 show ?thesis by blast
    next
      case 2
      with Cons obtain pre w post where "cs = pre @ w @ post" "map canon w = js ''SUCCESS''"
        by blast
      then have "c # cs = (c # pre) @ w @ post" by simp
      with \<open>map canon w = js ''SUCCESS''\<close> show ?thesis by blast
    qed
  next
    assume "\<exists>pre w post. c # cs = pre @ w @ post \<and> map canon w = js ''SUCCESS''"
    then obtain pre w post where p: "c # cs = pre @ w @ post" "map canon w = js ''SUCCESS''"
      by blast
    show "matches_success (c # cs)"
    proof (cases pre)
      case Nil
      with p have "take 7 (c # cs) = w"
        using length_SUCCESS [of w] by simp
      then have "map canon (take 7 (c # cs)) = js ''SUCCESS''"
        using p(2) by simp
      then show ?thesis
        by (simp del: take_Suc_Cons)
    next
      case (Cons d pre')
      with p have "cs = pre' @ w @ post" by simp
      with p Cons.IH show ?thesis by auto
    qed
  qed
qed

lemma sign_payload_call:
  "sign_payload P ev pl = Continues call \<Longrightarrow>
   http_method call = js ''POST'' \<and> url call = APP_SCRIPT_URL ev
   \<and> payload call = json_stringify P pl"
  by (auto simp: sign_payload_def Let_def split: sum.splits)

lemma prepare_call:
  "prepare P ev rq = Continues call \<Longrightarrow> http_method call = js ''POST'' \<and> url call = APP_SCRIPT_URL ev"
  unfolding prepare_def
  by (auto split: sum.splits option.splits if_splits outcome.splits dest: sign_payload_call)


text \<open>
  Claim C1, as the code has it. When the request reaches the relay step and the downstream
  response is not a success, the caller gets status 502 and the object
  \<^verbatim>\<open>{ok: false, forwarded: false, status, body}\<close> with the downstream status and the first
  3000 code units of the response text: \<^verbatim>\<open>ok\<close> is \<^verbatim>\<open>false\<close>, the failure is marked by
  \<^verbatim>\<open>forwarded: false\<close>, and the object has no \<^verbatim>\<open>error\<close> member.
\<close>

theorem forwarding_failure_response:
  assumes "prepare P ev rq = Continues call"
    and "fetch P call = Responds st t"
    and "\<not> (res_ok st \<and> matches_success (case t of None \<Rightarrow> [] | Some x \<Rightarrow> x))"
  shows "\<exists>r. fst (handleSave P ev rq) = Inr r \<and> status r = 502
    \<and> object r = JObj [(js ''ok'', JBool False), (js ''forwarded'', JBool False),
                       (js ''status'', JNum (Fin (of_nat st))),
                       (js ''body'', JStr (take 3000 (case t of None \<Rightarrow> [] | Some x \<Rightarrow> x)))]
    \<and> own_prop (object r) (js ''ok'') = JBool False
    \<and> own_prop (object r) (js ''forwarded'') = JBool False
    \<and> own_prop (object r) (js ''error'') = JUndefined"
proof -
  have "handleSave P ev rq = relay P call"
    using assms(1) by (simp add: handleSave_def)
  then have "fst (handleSave P ev rq)
      = Inr (json (JObj [(js ''ok'', JBool False), (js ''forwarded'', JBool False),
                         (js ''status'', JNum (Fin (of_nat st))),
                         (js ''body'', JStr (take 3000 (case t of None \<Rightarrow> [] | Some x \<Rightarrow> x)))])
               502)"
    using assms(2,3) by (auto simp: relay_def Let_def)
  then show ?thesis
    by (simp add: json_def own_prop_def js_def)
qed

section \<open>The scenarios\<close>

lemma ucast_ascii: "map ucast (ascii_bytes src) = js src"
proof -
  have "(ucast (of_nat (of_char c) :: byte) :: cu) = of_nat (of_char c)" for c :: char
  proof -
    have "take_bit 8 (of_char c :: nat) = of_char c"
      by (simp add: take_bit_eq_mod)
    then show ?thesis
      by (simp add: unsigned_of_nat)
  qed
  then show ?thesis
    by (simp add: ascii_bytes_def js_def)
qed

lemma scenario_platform_sel:
  "text_decode (scenario_platform src parsed down) = map ucast"
  "json_parse (scenario_platform src parsed down) = (\<lambda>s. if s = js src then Some parsed else None)"
  "hmac_sha256 (scenario_platform src parsed down)
     = (\<lambda>k m. if k = [] then None else Some (replicate 32 0))"
  "fetch (scenario_platform src parsed down) = (\<lambda>c. down)"
  by (simp_all add: scenario_platform_def)

lemma scenario_prepare:
  assumes "length src \<le> 65536" and "dataRows_of parsed = Some rows" and "rows \<noteq> []"
  shows "prepare (scenario_platform src parsed down) scenario_env (scenario_request src)
    = (case norm_loop rows [] of
         Throws e \<Rightarrow> Throws e
       | Returns resp \<Rightarrow> Returns resp
       | Continues nrm \<Rightarrow>
           sign_payload (scenario_platform src parsed down) scenario_env
             (build_payload (scenario_request src) parsed nrm))"
proof -
  have "readLimited (scenario_request src) MAX_BYTES = (Inr (Some (ascii_bytes src)), [])"
    using assms(1) read_loop_within [of 0 "[ascii_bytes src]" MAX_BYTES "[]"]
    by (simp add: readLimited_def scenario_request_def MAX_BYTES_def ascii_bytes_def)
  then show ?thesis
    using assms(2,3)
    by (simp add: prepare_def scenario_platform_sel ucast_ascii)
qed

lemma scenario_sign:
  "\<exists>call. sign_payload (scenario_platform src parsed down) scenario_env pl = Continues call"
proof -
  have "utf8_encode (js ''secret'') \<noteq> []"
    by code_simp
  then show ?thesis
    by (simp add: sign_payload_def hmacSha256Base64_def scenario_platform_sel scenario_env_def
        Let_def)
qed

lemma scenario_A_sanitize:
  "sanitize_row scenario_A_row = Continues
     \<lparr>timestamp = js ''t1'', item_name = js ''Coffee'', qty = 2, subtotal_usd = js ''3.00'',
      vat_usd = js ''0.45'', total_usd = js ''3.45'', currency = js ''USD'',
      iva_rate = IVA_RATE\<rparr>"
proof -
  have n: "\<not> nullish scenario_A_row"
    by (simp add: nullish_def scenario_A_row_def)
  have "safeText (own_prop scenario_A_row (js ''timestamp'')) 64 = js ''t1''"
    and "safeText (own_prop scenario_A_row (js ''item'')) 96 = js ''Coffee''"
    and "toInt (own_prop scenario_A_row (js ''qty'')) 1 9999 = Inr 2"
    and "toMoney (own_prop scenario_A_row (js ''subtotal'')) = Inr (js ''3.00'')"
    and "toMoney (own_prop scenario_A_row (js ''vat'')) = Inr (js ''0.45'')"
    and "toMoney (own_prop scenario_A_row (js ''total'')) = Inr (js ''3.45'')"
    by code_simp+
  with n show ?thesis
    by (simp add: sanitize_row_def js_def)
qed

lemma scenario_A_prepare:
  "\<exists>call. prepare (scenario_platform scenario_A_text (JArr [scenario_A_row]) down) scenario_env
      (scenario_request scenario_A_text) = Continues call"
proof -
  have "length scenario_A_text \<le> 65536"
    by (simp add: scenario_A_text_def)
  moreover have "dataRows_of (JArr [scenario_A_row]) = Some [scenario_A_row]"
    by (simp add: dataRows_of_def)
  ultimately show ?thesis
    using scenario_prepare [of scenario_A_text "JArr [scenario_A_row]" "[scenario_A_row]" down]
      scenario_sign
    by (simp add: scenario_A_sanitize)
qed


theorem forwarding_failure_response_witness:
  "\<exists>r. fst (handleSave
      (scenario_platform scenario_A_text (JArr [scenario_A_row]) (Responds 200 (Some (js ''saved''))))
      scenario_env (scenario_request scenario_A_text)) = Inr r
    \<and> status r = 502
    \<and> object r = JObj [(js ''ok'', JBool False), (js ''forwarded'', JBool False),
                       (js ''status'', JNum (Fin 200)), (js ''body'', JStr (js ''saved''))]
    \<and> own_prop (object r) (js ''error'') = JUndefined"
proof -
  let ?P = "scenario_platform scenario_A_text (JArr [scenario_A_row])
              (Responds 200 (Some (js ''saved'')))"
  obtain call where c: "prepare ?P scenario_env (scenario_request scenario_A_text) = Continues call"
    using scenario_A_prepare by blast
  have f: "fetch ?P call = Responds 200 (Some (js ''saved''))"
    by (simp add: scenario_platform_sel)
  have m: "\<not> matches_success (js ''saved'')"
    by code_simp
  have t: "take 3000 (js ''saved'') = js ''saved''"
    by (simp add: js_def)
  from forwarding_failure_response [OF c f] m t show ?thesis
    by auto
qed

theorem forwarding_failure_counterexample:
  "fst (handleSave
      (scenario_platform scenario_A_text (JArr [scenario_A_row]) (Responds 500 (Some (js ''fail: db down''))))
      scenario_env (scenario_request scenario_A_text))
     = Inr (json (JObj [(js ''ok'', JBool False), (js ''forwarded'', JBool False),
                        (js ''status'', JNum (Fin 500)),
                        (js ''body'', JStr (js ''fail: db down''))]) 502)
   \<and> own_prop (JObj [(js ''ok'', JBool False), (js ''forwarded'', JBool False),
                     (js ''status'', JNum (Fin 500)),
                     (js ''body'', JStr (js ''fail: db down''))]) (js ''error'') = JUndefined"
proof -
  let ?P = "scenario_platform scenario_A_text (JArr [scenario_A_row])
              (Responds 500 (Some (js ''fail: db down'')))"
  obtain call where c: "prepare ?P scenario_env (scenario_request scenario_A_text) = Continues call"
    using scenario_A_prepare by blast
  have f: "fetch ?P call = Responds 500 (Some (js ''fail: db down''))"
    by (simp add: scenario_platform_sel)
  have t: "take 3000 (js ''fail: db down'') = js ''fail: db down''"
    by (simp add: js_def)
  have "fst (handleSave ?P scenario_env (scenario_request scenario_A_text))
      = Inr (json (JObj [(js ''ok'', JBool False), (js ''forwarded'', JBool False),
                        (js ''status'', JNum (Fin 500)),
                        (js ''body'', JStr (js ''fail: db down''))]) 502)"
    using c f t by (simp add: handleSave_def relay_def res_ok_def)
  moreover have "own_prop (JObj [(js ''ok'', JBool False), (js ''forwarded'', JBool False),
                     (js ''status'', JNum (Fin 500)),
                     (js ''body'', JStr (js ''fail: db down''))]) (js ''error'') = JUndefined"
    by (simp add: own_prop_def js_def)
  ultimately show ?thesis by blast
qed

lemma norm_loop_order:
  "norm_loop rows acc = Continues nrm \<Longrightarrow>
   map Continues nrm = map Continues acc @ map sanitize_row rows"
proof (induction rows arbitrary: acc)
  case Nil
  then show ?case by simp
next
  case (Cons r rs)
  then show ?case
    by (cases "sanitize_row r") auto
qed

lemma IVA_RATE_value: "IVA_RATE = Fin (5404319552844595 / 2 ^ 55) \<and> num_to_string IVA_RATE = js ''0.15''"
  unfolding IVA_RATE_def by code_simp

text \<open>
  Claim C9. The one row of scenario A, with the fields \<^verbatim>\<open>timestamp: "t1"\<close>, \<^verbatim>\<open>item: "Coffee"\<close>,
  \<^verbatim>\<open>qty: "2"\<close>, \<^verbatim>\<open>subtotal: "3"\<close>, \<^verbatim>\<open>vat: "0.45"\<close>, \<^verbatim>\<open>total: "3.45"\<close>, is sanitized to exactly
  one row with \<^verbatim>\<open>timestamp "t1"\<close>, \<^verbatim>\<open>item_name "Coffee"\<close>, \<^verbatim>\<open>qty 2\<close>, \<^verbatim>\<open>subtotal_usd "3.00"\<close>,
  \<^verbatim>\<open>vat_usd "0.45"\<close>, \<^verbatim>\<open>total_usd "3.45"\<close>, \<^verbatim>\<open>currency "USD"\<close> and the rate that prints as
  \<^verbatim>\<open>0.15\<close>; and whenever a list of rows is accepted, the sanitized rows are the rows of the
  input, each sanitized, in the order of the input.
\<close>

theorem scenario_A_rows:
  "norm_loop [scenario_A_row] []
     = Continues [\<lparr>timestamp = js ''t1'', item_name = js ''Coffee'', qty = 2,
                   subtotal_usd = js ''3.00'', vat_usd = js ''0.45'', total_usd = js ''3.45'',
                   currency = js ''USD'', iva_rate = IVA_RATE\<rparr>]
   \<and> num_to_string IVA_RATE = js ''0.15''
   \<and> (\<forall>rows nrm. norm_loop rows [] = Continues nrm \<longrightarrow>
         map sanitize_row rows = map Continues nrm)"
  using norm_loop_order [of _ "[]"] IVA_RATE_value by (simp add: scenario_A_sanitize)

theorem scenario_A_rows_witness:
  "map sanitize_row [scenario_A_row, scenario_A_row]
     = map Continues
         [\<lparr>timestamp = js ''t1'', item_name = js ''Coffee'', qty = 2,
           subtotal_usd = js ''3.00'', vat_usd = js ''0.45'', total_usd = js ''3.45'',
           currency = js ''USD'', iva_rate = IVA_RATE\<rparr>,
          \<lparr>timestamp = js ''t1'', item_name = js ''Coffee'', qty = 2,
           subtotal_usd = js ''3.00'', vat_usd = js ''0.45'', total_usd = js ''3.45'',
           currency = js ''USD'', iva_rate = IVA_RATE\<rparr>]"
proof -
  have "norm_loop [scenario_A_row, scenario_A_row] []
     = Continues
         [\<lparr>timestamp = js ''t1'', item_name = js ''Coffee'', qty = 2,
           subtotal_usd = js ''3.00'', vat_usd = js ''0.45'', total_usd = js ''3.45'',
           currency = js ''USD'', iva_rate = IVA_RATE\<rparr>,
          \<lparr>timestamp = js ''t1'', item_name = js ''Coffee'', qty = 2,
           subtotal_usd = js ''3.00'', vat_usd = js ''0.45'', total_usd = js ''3.45'',
           currency = js ''USD'', iva_rate = IVA_RATE\<rparr>]"
    by (simp add: scenario_A_sanitize)
  with scenario_A_rows show ?thesis
    by blast
qed

section \<open>Rows that are rejected, rows that throw\<close>

lemma norm_loop_rejects:
  assumes "\<forall>r \<in> set rows. \<forall>e. sanitize_row r \<noteq> Throws e"
    and "\<exists>r \<in> set rows. \<exists>resp. sanitize_row r = Returns resp"
  shows "\<exists>resp. norm_loop rows acc = Returns resp"
  using assms
proof (induction rows arbitrary: acc)
  case Nil
  then show ?case by simp
next
  case (Cons r rs)
  show ?case
  proof (cases "sanitize_row r")
    case (Throws e)
    with Cons.prems show ?thesis by simp
  next
    case (Returns resp)
    then show ?thesis by simp
  next
    case (Continues row)
    with Cons.prems have "\<exists>r \<in> set rs. \<exists>resp. sanitize_row r = Returns resp"
      by auto
    with Cons.IH [of "acc @ [row]"] Cons.prems Continues show ?thesis
      by simp
  qed
qed

lemma sanitize_row_Returns:
  "sanitize_row r = Returns resp \<Longrightarrow> \<exists>name q. resp = invalid_row name q"
  by (auto simp: sanitize_row_def Let_def split: if_splits sum.splits)

lemma norm_loop_Returns:
  "norm_loop rows acc = Returns resp \<Longrightarrow> \<exists>name q. resp = invalid_row name q"
proof (induction rows arbitrary: acc)
  case Nil
  then show ?case by simp
next
  case (Cons r rs)
  then show ?case
    by (cases "sanitize_row r") (auto dest: sanitize_row_Returns)
qed

text \<open>
  Claim C3, at an input on which the code does not do what the claim says. The second row
  alone is rejected as \<^verbatim>\<open>invalid_row\<close> (its timestamp is empty), but the conversion of the
  first row's quantity throws a \<^verbatim>\<open>TypeError\<close>, so the request with both rows ends with
  that exception and not with the \<^verbatim>\<open>invalid_row\<close> response. Nothing is forwarded.
\<close>

theorem invalid_row_not_reported:
  "sanitize_row empty_timestamp_row = Returns (invalid_row (js ''Tea'') 1)
   \<and> handleSave
        (scenario_platform two_rows_text (JArr [unprintable_qty_row, empty_timestamp_row])
           (Responds 200 (Some (js ''success''))))
        scenario_env (scenario_request two_rows_text)
      = (Inl TypeError, [])"
proof -
  have n: "\<not> nullish empty_timestamp_row" "\<not> nullish unprintable_qty_row"
    by (simp_all add: nullish_def empty_timestamp_row_def unprintable_qty_row_def)
  have "safeText (own_prop empty_timestamp_row (js ''timestamp'')) 64 = []"
    and "safeText (own_prop empty_timestamp_row (js ''item'')) 96 = js ''Tea''"
    and "toInt (own_prop empty_timestamp_row (js ''qty'')) 1 9999 = Inr 1"
    and "toMoney (own_prop empty_timestamp_row (js ''subtotal'')) = Inr (js ''0.00'')"
    and "toMoney (own_prop empty_timestamp_row (js ''vat'')) = Inr (js ''0.00'')"
    and "toMoney (own_prop empty_timestamp_row (js ''total'')) = Inr (js ''0.00'')"
    by code_simp+
  with n have a: "sanitize_row empty_timestamp_row = Returns (invalid_row (js ''Tea'') 1)"
    by (simp add: sanitize_row_def)
  have "toInt (own_prop unprintable_qty_row (js ''qty'')) 1 9999 = Inl TypeError"
    by code_simp
  with n have t: "sanitize_row unprintable_qty_row = Throws TypeError"
    by (simp add: sanitize_row_def)
  have "length two_rows_text \<le> 65536"
    by (simp add: two_rows_text_def)
  moreover have "dataRows_of (JArr [unprintable_qty_row, empty_timestamp_row])
      = Some [unprintable_qty_row, empty_timestamp_row]"
    by (simp add: dataRows_of_def)
  ultimately have "prepare
        (scenario_platform two_rows_text (JArr [unprintable_qty_row, empty_timestamp_row])
           (Responds 200 (Some (js ''success''))))
        scenario_env (scenario_request two_rows_text) = Throws TypeError"
    using scenario_prepare [of two_rows_text
        "JArr [unprintable_qty_row, empty_timestamp_row]"
        "[unprintable_qty_row, empty_timestamp_row]"]
    by (simp add: t)
  with a show ?thesis
    by (simp add: handleSave_def)
qed

section \<open>Money\<close>

text \<open>
  Claim C5, at inputs on which the code does not do what the claim says. The string
  \<^verbatim>\<open>"1e21"\<close> parses to a finite number that is not negative, and \<^verbatim>\<open>toFixed(2)\<close> of a number
  from \<open>10 ^ 21\<close> on is in exponent notation: the result is \<^verbatim>\<open>"1e+21"\<close>, without decimals.
  For an object with an own property \<^verbatim>\<open>toString\<close>, \<^verbatim>\<open>toMoney\<close> throws.
\<close>

theorem toMoney_not_two_decimals:
  "toMoney (JStr (js ''1e21'')) = Inr (js ''1e+21'')
   \<and> toMoney (JObj [(js ''toString'', JNum (Fin 1))]) = Inl TypeError"
  by code_simp

declare ilog.simps [simp del]

lemma ilog_bounds:
  "2 \<le> b \<Longrightarrow> 1 \<le> n \<Longrightarrow> b ^ ilog b n \<le> n \<and> n < b ^ Suc (ilog b n)"
proof (induction b n rule: ilog.induct)
  case (1 b n)
  show ?case
  proof (cases "n < b")
    case True
    with 1 show ?thesis by (simp add: ilog.simps [of b n])
  next
    case False
    define k where "k = ilog b (n div b)"
    define q where "q = n div b"
    define r where "r = n mod b"
    have n: "n = q * b + r" and r: "0 \<le> r" "r < b"
      using 1(2) by (simp_all add: q_def r_def)
    have d: "1 \<le> q"
      using False 1(2) pos_imp_zdiv_pos_iff [of b n] unfolding q_def by linarith
    have i: "ilog b n = Suc k"
      using False 1(2) by (simp add: ilog.simps [of b n] k_def)
    from 1(1) [OF _ 1(2)] d False 1(2)
    have ih: "b ^ k \<le> q" "q < b ^ Suc k"
      by (simp_all add: k_def q_def)
    have "b ^ Suc k \<le> q * b"
      using ih(1) 1(2) by (simp add: mult.commute mult_left_mono)
    then have lo: "b ^ Suc k \<le> n"
      using n r by linarith
    have "q + 1 \<le> b ^ Suc k"
      using ih(2) by simp
    then have "(q + 1) * b \<le> b ^ Suc k * b"
      using 1(2) by (intro mult_right_mono) simp_all
    then have hi: "n < b ^ Suc (Suc k)"
      using n r by (simp add: algebra_simps)
    from lo hi show ?thesis
      unfolding i by simp
  qed
qed

lemma flog_bounds:
  assumes "2 \<le> b" and "0 < a"
  shows "of_int b powi flog b a \<le> a \<and> a < of_int b powi (flog b a + 1)"
proof -
  obtain p d where pd: "quotient_of a = (p, d)"
    by (cases "quotient_of a")
  then have d: "0 < d" and a: "a = of_int p / of_int d"
    using quotient_of_denom_pos quotient_of_div by blast+
  have p: "1 \<le> p"
  proof -
    have "0 < (of_int p :: rat)"
      using assms(2) d unfolding a by (simp add: zero_less_divide_iff)
    then show ?thesis by simp
  qed
  define i where "i = ilog b p"
  define j where "j = ilog b d"
  define B :: rat where "B = of_int b"
  have B: "1 < B" "0 < B" "B \<noteq> 0"
    using assms(1) by (simp_all add: B_def)
  have ip: "B ^ i \<le> of_int p" "of_int p < B ^ Suc i"
    using ilog_bounds [OF assms(1) p] unfolding i_def B_def
    by (metis of_int_le_iff of_int_power, metis of_int_less_iff of_int_power)
  have jd: "B ^ j \<le> of_int d" "of_int d < B ^ Suc j"
    using ilog_bounds [OF assms(1), of d] d unfolding j_def B_def
    by (metis of_int_le_iff of_int_power int_one_le_iff_zero_less,
        metis of_int_less_iff of_int_power int_one_le_iff_zero_less)
  have dpos: "0 < (of_int d :: rat)" using d by simp
  have e: "B powi (int i - int j) = B ^ i / B ^ j"
    using B by (simp add: power_int_diff)
  have hi: "a < B powi (int i - int j + 1)"
  proof -
    have "of_int p < B ^ Suc i" by (rule ip)
    also have "B ^ Suc i = B powi (int i - int j + 1) * B ^ j"
      using B by (simp add: power_int_add e)
    also have "\<dots> \<le> B powi (int i - int j + 1) * of_int d"
      using jd(1) B by (intro mult_left_mono) simp_all
    finally show ?thesis
      using dpos unfolding a by (simp add: pos_divide_less_eq)
  qed
  have lo: "B powi (int i - int j - 1) \<le> a"
  proof -
    have "B powi (int i - int j - 1) * of_int d \<le> B powi (int i - int j - 1) * B ^ Suc j"
      using jd(2) B by (intro mult_left_mono) simp_all
    also have "\<dots> = B ^ i"
      using B by (simp add: power_int_diff e)
    also have "\<dots> \<le> of_int p" by (rule ip)
    finally show ?thesis
      using dpos unfolding a by (simp add: pos_le_divide_eq)
  qed
  have f: "flog b a = flog_adj b a (int i - int j)"
    by (simp add: flog_def pd i_def j_def)
  show ?thesis
  proof (cases "B powi (int i - int j) \<le> a")
    case True
    then show ?thesis
      using hi unfolding f flog_adj_def B_def by simp
  next
    case False
    then show ?thesis
      using lo unfolding f flog_adj_def B_def by simp
  qed
qed

lemma powi_mono: "1 \<le> (x::rat) \<Longrightarrow> m \<le> n \<Longrightarrow> x powi m \<le> x powi n"
  by (rule power_int_increasing)

lemma flog_unique:
  assumes "2 \<le> b" and "of_int b powi e \<le> a" and "a < of_int b powi (e + 1)"
  shows "flog b a = e"
proof -
  define B :: rat where "B = of_int b"
  have B: "1 \<le> B" "0 < B" using assms(1) by (simp_all add: B_def)
  have a: "0 < a"
    using assms(2) B by (metis B_def less_le_trans zero_less_power_int)
  from flog_bounds [OF assms(1) a]
  have f: "B powi flog b a \<le> a" "a < B powi (flog b a + 1)"
    by (simp_all add: B_def)
  have "\<not> flog b a + 1 \<le> e"
  proof
    assume "flog b a + 1 \<le> e"
    then have "B powi (flog b a + 1) \<le> B powi e"
      using B by (intro power_int_increasing)
    with f assms(2) show False by (simp add: B_def)
  qed
  moreover have "\<not> e + 1 \<le> flog b a"
  proof
    assume "e + 1 \<le> flog b a"
    then have "B powi (e + 1) \<le> B powi flog b a"
      using B by (intro power_int_increasing)
    with f assms(3) show False by (simp add: B_def)
  qed
  ultimately show ?thesis by linarith
qed

lemma rhe_cases:
  "of_int (round_half_even x) = (of_int \<lfloor>x\<rfloor> :: rat) \<and> x - of_int \<lfloor>x\<rfloor> \<le> 1 / 2
   \<or> of_int (round_half_even x) = of_int \<lfloor>x\<rfloor> + (1::rat) \<and> 1 / 2 \<le> x - of_int \<lfloor>x\<rfloor>"
  by (auto simp: round_half_even_def Let_def)

lemma rhe_of_int [simp]: "round_half_even (of_int k) = k"
  by (simp add: round_half_even_def)

lemma rhe_nearest: "\<bar>of_int (round_half_even x) - x\<bar> \<le> \<bar>of_int k - x\<bar>"
proof -
  have f: "of_int \<lfloor>x\<rfloor> \<le> x" "x < of_int \<lfloor>x\<rfloor> + 1"
    by linarith+
  consider "k \<le> \<lfloor>x\<rfloor>" | "\<lfloor>x\<rfloor> + 1 \<le> k" by linarith
  then show ?thesis
  proof cases
    case 1
    then have "(of_int k :: rat) \<le> of_int \<lfloor>x\<rfloor>" by simp
    with f rhe_cases [of x] show ?thesis by linarith
  next
    case 2
    then have "(of_int \<lfloor>x\<rfloor> :: rat) + 1 \<le> of_int k"
      by (metis of_int_1 of_int_add of_int_le_iff)
    with f rhe_cases [of x] show ?thesis by linarith
  qed
qed

lemma rhe_half: "\<bar>of_int (round_half_even x) - x\<bar> \<le> 1 / 2"
  using rhe_cases [of x] by linarith

lemma rhe_le: "x \<le> of_int k \<Longrightarrow> round_half_even x \<le> k"
proof -
  assume a: "x \<le> of_int k"
  show ?thesis
  proof (cases "x = of_int k")
    case True
    then show ?thesis by simp
  next
    case False
    with a have "x < of_int k" by simp
    then have "\<lfloor>x\<rfloor> < k" by (simp add: floor_less_iff)
    then have "(of_int \<lfloor>x\<rfloor> :: rat) + 1 \<le> of_int k"
      by (metis of_int_1 of_int_add of_int_le_iff zless_imp_add1_zle)
    with rhe_cases [of x] have "(of_int (round_half_even x) :: rat) \<le> of_int k"
      by linarith
    then show ?thesis by simp
  qed
qed

lemma rhe_ge: "of_int k \<le> x \<Longrightarrow> k \<le> round_half_even x"
proof -
  assume "of_int k \<le> x"
  then have "k \<le> \<lfloor>x\<rfloor>" by (simp add: le_floor_iff)
  then have "(of_int k :: rat) \<le> of_int \<lfloor>x\<rfloor>" by simp
  with rhe_cases [of x] have "(of_int k :: rat) \<le> of_int (round_half_even x)"
    by linarith
  then show ?thesis by simp
qed

lemma bexp_pos:
  assumes "0 < a"
  shows "0 < a / 2 powi (bexp a - 52)" and "a / 2 powi (bexp a - 52) < 2 ^ 53"
    and "- 1022 \<le> flog 2 a \<Longrightarrow> 2 ^ 52 \<le> a / 2 powi (bexp a - 52)"
    and "flog 2 a < - 1022 \<Longrightarrow> a / 2 powi (bexp a - 52) < 2 ^ 52"
proof -
  have u: "0 < (2::rat) powi (bexp a - 52)" by simp
  from flog_bounds [of 2 a] assms
  have f: "2 powi flog 2 a \<le> a" "a < 2 powi (flog 2 a + 1)" by simp_all
  show "0 < a / 2 powi (bexp a - 52)" using assms by simp
  have "(2::rat) powi (flog 2 a + 1) \<le> 2 powi (bexp a + 1)"
    using assms by (intro power_int_increasing) (simp_all add: bexp_def)
  also have "\<dots> = 2 ^ 53 * 2 powi (bexp a - 52)"
    by (simp add: power_int_diff power_int_add)
  finally have "a < 2 ^ 53 * 2 powi (bexp a - 52)" using f by linarith
  then show "a / 2 powi (bexp a - 52) < 2 ^ 53"
    using u by (simp add: pos_divide_less_eq)
  {
    assume n: "- 1022 \<le> flog 2 a"
    then have b: "bexp a = flog 2 a" using assms by (simp add: bexp_def)
    have "(2::rat) ^ 52 * 2 powi (bexp a - 52) = 2 powi flog 2 a"
      unfolding b by (simp add: power_int_diff)
    with f show "2 ^ 52 \<le> a / 2 powi (bexp a - 52)"
      using u by (simp add: pos_le_divide_eq)
  }
  {
    assume n: "flog 2 a < - 1022"
    then have b: "bexp a = - 1022" using assms by (simp add: bexp_def)
    have "(2::rat) powi (flog 2 a + 1) \<le> 2 powi (- 1022)"
      using n by (intro power_int_increasing) simp_all
    also have "\<dots> = 2 ^ 52 * 2 powi (bexp a - 52)"
      unfolding b by (simp add: power_int_diff)
    finally have "a < 2 ^ 52 * 2 powi (bexp a - 52)" using f by linarith
    then show "a / 2 powi (bexp a - 52) < 2 ^ 52"
      using u by (simp add: pos_divide_less_eq)
  }
qed

lemma round_double_pos:
  "0 < a \<Longrightarrow> round_double a = pack True (bexp a) (mantissa a (bexp a))"
  by (simp add: round_double_def bexp_def Let_def)

lemma round_double_neg:
  "a < 0 \<Longrightarrow> round_double a = pack False (bexp a) (mantissa (- a) (bexp a))"
  by (simp add: round_double_def bexp_def Let_def)

lemma mantissa_bounds:
  assumes "0 < a"
  shows "0 \<le> mantissa a (bexp a)" and "mantissa a (bexp a) \<le> 2 ^ 53"
    and "- 1022 \<le> flog 2 a \<Longrightarrow> 2 ^ 52 \<le> mantissa a (bexp a)"
    and "flog 2 a < - 1022 \<Longrightarrow> mantissa a (bexp a) \<le> 2 ^ 52"
proof -
  show "0 \<le> mantissa a (bexp a)"
    unfolding mantissa_def using bexp_pos(1) [OF assms] by (intro rhe_ge) simp
  show "mantissa a (bexp a) \<le> 2 ^ 53"
    unfolding mantissa_def using bexp_pos(2) [OF assms] by (intro rhe_le) simp
  show "- 1022 \<le> flog 2 a \<Longrightarrow> 2 ^ 52 \<le> mantissa a (bexp a)"
    unfolding mantissa_def using bexp_pos(3) [OF assms] by (intro rhe_ge) simp
  show "flog 2 a < - 1022 \<Longrightarrow> mantissa a (bexp a) \<le> 2 ^ 52"
    unfolding mantissa_def using bexp_pos(4) [OF assms] by (intro rhe_le) simp
qed

lemma bexp_minus [simp]: "bexp (- a) = bexp a"
  by (simp add: bexp_def)

lemma round_double_minus: "round_double (- a) = jneg (round_double a)"
proof -
  consider "a = 0" | "0 < a" | "a < 0" by linarith
  then show ?thesis
  proof cases
    case 1
    then show ?thesis by (simp add: round_double_def jneg_def)
  next
    case 2
    then show ?thesis
      using round_double_neg [of "- a"]
      by (auto simp: round_double_pos pack_def jneg_def)
  next
    case 3
    then show ?thesis
      using round_double_pos [of "- a"]
      by (auto simp: round_double_neg pack_def jneg_def)
  qed
qed

lemma flog2_less:
  assumes "0 < a" and "a < 2 powi k"
  shows "flog 2 a < k"
proof (rule ccontr)
  assume "\<not> flog 2 a < k"
  then have "(2::rat) powi k \<le> 2 powi flog 2 a"
    by (intro power_int_increasing) simp_all
  with flog_bounds [of 2 a] assms show False by simp
qed

lemma flog2_ge:
  assumes "2 powi k \<le> a"
  shows "k \<le> flog 2 a"
proof (rule ccontr)
  assume "\<not> k \<le> flog 2 a"
  then have "(2::rat) powi (flog 2 a + 1) \<le> 2 powi k"
    by (intro power_int_increasing) simp_all
  moreover have "0 < a"
    using assms by (meson less_le_trans zero_less_numeral zero_less_power_int)
  ultimately show False
    using flog_bounds [of 2 a] assms by simp
qed

lemma round_double_grid:
  assumes "0 < y" and "y / 2 powi (bexp y - 52) = of_int M" and "bexp y \<le> 1023"
  shows "round_double y = Fin y"
proof -
  have m: "mantissa y (bexp y) = M"
    by (simp add: mantissa_def assms(2))
  have "of_int M < (2::rat) ^ 53"
    using bexp_pos(2) [OF assms(1)] assms(2) by simp
  then have "M < 2 ^ 53"
    by (metis of_int_less_iff of_int_numeral of_int_power)
  then have "pack True (bexp y) M = Fin (of_int M * 2 powi (bexp y - 52))"
    using assms(3) by (simp add: pack_def)
  also have "of_int M * 2 powi (bexp y - 52) = y"
    using assms(2) by (simp add: field_simps)
  finally show ?thesis
    by (simp add: round_double_pos assms(1) m)
qed

lemma double_intro:
  assumes "0 \<le> M" and "M \<le> 2 ^ 53" and "- 1022 \<le> e" and "e \<le> 1023"
    and "\<not> (e = 1023 \<and> M = 2 ^ 53)"
  shows "round_double (of_int M * 2 powi (e - 52)) = Fin (of_int M * 2 powi (e - 52))"
proof (cases "M = 0")
  case True
  then show ?thesis by (simp add: round_double_def)
next
  case False
  define y :: rat where "y = of_int M * 2 powi (e - 52)"
  have M: "0 < M" using False assms(1) by simp
  then have y: "0 < y" by (simp add: y_def)
  have yle: "y \<le> 2 powi (e + 1)"
  proof -
    have "(of_int M :: rat) \<le> 2 ^ 53"
      using assms(2) by (metis of_int_le_iff of_int_numeral of_int_power)
    then have "y \<le> 2 ^ 53 * 2 powi (e - 52)"
      unfolding y_def by (intro mult_right_mono) simp_all
    also have "\<dots> = 2 powi (e + 1)"
      by (simp add: power_int_diff power_int_add)
    finally show ?thesis .
  qed
  show ?thesis
  proof (cases "bexp y \<le> e")
    case True
    define k where "k = nat (e - bexp y)"
    have "(2::rat) powi (e - 52) = 2 ^ k * 2 powi (bexp y - 52)"
    proof -
      have "(2::rat) powi (e - 52) = 2 powi (int k + (bexp y - 52))"
        using True by (simp add: k_def)
      also have "\<dots> = 2 powi int k * 2 powi (bexp y - 52)"
        by (rule power_int_add) simp
      finally show ?thesis by simp
    qed
    then have "of_int M * 2 powi (e - 52) = of_int (M * 2 ^ k) * (2::rat) powi (bexp y - 52)"
      by simp
    then have "y = of_int (M * 2 ^ k) * 2 powi (bexp y - 52)"
      by (simp only: y_def [symmetric])
    moreover have "(2::rat) powi (bexp y - 52) \<noteq> 0" by simp
    ultimately have "y / 2 powi (bexp y - 52) = of_int (M * 2 ^ k)"
      by (metis nonzero_mult_div_cancel_right)
    moreover have "bexp y \<le> 1023" using True assms(4) by simp
    ultimately show ?thesis
      using round_double_grid [OF y] unfolding y_def by blast
  next
    case False
    then have b: "bexp y = flog 2 y" "e < flog 2 y"
      using y assms(3) by (simp_all add: bexp_def)
    have "flog 2 y \<le> e + 1"
    proof (rule ccontr)
      assume "\<not> flog 2 y \<le> e + 1"
      then have "(2::rat) powi (e + 2) \<le> 2 powi flog 2 y"
        by (intro power_int_increasing) simp_all
      moreover have "(2::rat) powi (e + 1) < 2 powi (e + 2)"
        by (intro power_int_strict_increasing) simp_all
      ultimately show False
        using flog_bounds [of 2 y] y yle by simp
    qed
    with b have f: "flog 2 y = e + 1" by simp
    have "2 powi (e + 1) \<le> y"
      using flog_bounds [of 2 y] y f by simp
    with yle have ye: "y = 2 powi (e + 1)" by simp
    have bx: "bexp y - 52 = e + 1 - 52" using b f by simp
    have "y / 2 powi (e + 1 - 52) = of_int (2 ^ 52)"
      unfolding ye by (simp add: power_int_diff power_int_add)
    then have "y / 2 powi (bexp y - 52) = of_int (2 ^ 52)"
      by (simp only: bx)
    moreover have "bexp y \<le> 1023"
    proof -
      have "(of_int M :: rat) * 2 powi (e - 52) = 2 ^ 53 * 2 powi (e - 52)"
        using ye unfolding y_def by (simp add: power_int_diff power_int_add)
      then have "(of_int M :: rat) = 2 ^ 53" by simp
      then have "M = 2 ^ 53"
        by (metis of_int_eq_iff of_int_numeral of_int_power)
      with assms(4,5) show ?thesis unfolding b f by simp
    qed
    ultimately show ?thesis
      using round_double_grid [OF y] unfolding y_def by blast
  qed
qed

lemma round_double_value:
  assumes "0 < a" and "round_double a = Fin y"
  shows "y = of_int (mantissa a (bexp a)) * 2 powi (bexp a - 52)"
    and "bexp a \<le> 1023" and "\<not> (bexp a = 1023 \<and> mantissa a (bexp a) = 2 ^ 53)"
  using assms by (auto simp: round_double_pos pack_def split: if_splits)

lemma bexp_ge: "- 1022 \<le> bexp a"
  by (simp add: bexp_def)

lemma round_double_idem_pos:
  assumes "0 < a" and "round_double a = Fin y"
  shows "round_double y = Fin y"
  using double_intro [of "mantissa a (bexp a)" "bexp a"]
    round_double_value [OF assms] mantissa_bounds(1,2) [OF assms(1)] bexp_ge [of a]
  by simp

lemma round_double_idem:
  assumes "round_double a = Fin y"
  shows "round_double y = Fin y"
proof -
  consider "a = 0" | "0 < a" | "a < 0" by linarith
  then show ?thesis
  proof cases
    case 1
    with assms show ?thesis by (simp add: round_double_def)
  next
    case 2
    show ?thesis by (rule round_double_idem_pos [OF 2 assms])
  next
    case 3
    have "round_double (- a) = Fin (- y)"
      using assms by (simp add: round_double_minus jneg_def)
    with 3 have "round_double (- y) = Fin (- y)"
      using round_double_idem_pos [of "- a" "- y"] by simp
    then show ?thesis
      using round_double_minus [of "- y"] by (simp add: jneg_def)
  qed
qed

lemma round_double_int:
  assumes "\<bar>i\<bar> \<le> 2 ^ 53"
  shows "round_double (of_int i) = Fin (of_int i)"
proof -
  have p: "round_double (of_int j) = Fin (of_int j)" if "0 \<le> j" "j \<le> 2 ^ 53" for j
    using double_intro [of j 52] that by simp
  show ?thesis
  proof (cases "0 \<le> i")
    case True
    with assms p show ?thesis by simp
  next
    case False
    with assms p [of "- i"] have "round_double (of_int (- i)) = Fin (of_int (- i))" by simp
    then show ?thesis
      using round_double_minus [of "of_int (- i)"] by (simp add: jneg_def)
  qed
qed

lemma round_double_finite_pos:
  assumes "0 < a" and "a < 2 powi 1023"
  shows "\<exists>y. round_double a = Fin y \<and> 0 \<le> y"
proof -
  have "flog 2 a < 1023" using assms by (rule flog2_less)
  then have b: "bexp a \<le> 1022" using assms(1) by (simp add: bexp_def)
  then have "round_double a = Fin (of_int (mantissa a (bexp a)) * 2 powi (bexp a - 52))"
    using assms(1) by (simp add: round_double_pos pack_def)
  moreover have "0 \<le> (of_int (mantissa a (bexp a)) :: rat) * 2 powi (bexp a - 52)"
    using mantissa_bounds(1) [OF assms(1)] by simp
  ultimately show ?thesis by blast
qed

lemma round_double_finite:
  assumes "\<bar>a\<bar> < 2 powi 1023"
  shows "\<exists>y. round_double a = Fin y \<and> (0 \<le> a \<longrightarrow> 0 \<le> y) \<and> (a \<le> 0 \<longrightarrow> y \<le> 0)"
proof -
  consider "a = 0" | "0 < a" | "a < 0" by linarith
  then show ?thesis
  proof cases
    case 1
    then show ?thesis by (simp add: round_double_def)
  next
    case 2
    with assms round_double_finite_pos [of a] show ?thesis by auto
  next
    case 3
    with assms round_double_finite_pos [of "- a"] obtain y
      where "round_double (- a) = Fin y" "0 \<le> y" by auto
    then have "round_double a = Fin (- y)"
      using round_double_minus [of "- a"] by (simp add: jneg_def)
    with 3 \<open>0 \<le> y\<close> show ?thesis by simp
  qed
qed

lemma abs_scale:
  fixes c a u :: rat
  assumes "0 < u"
  shows "\<bar>c - a / u\<bar> * u = \<bar>c * u - a\<bar>"
proof -
  have "\<bar>c * u - a\<bar> = \<bar>(c - a / u) * u\<bar>"
    using assms by (simp add: left_diff_distrib)
  also have "\<dots> = \<bar>c - a / u\<bar> * \<bar>u\<bar>"
    by (rule abs_mult)
  finally show ?thesis using assms by simp
qed

lemma nearest_on_grid:
  assumes "0 < a" and "round_double a = Fin y"
  shows "\<bar>y - a\<bar> \<le> \<bar>of_int K * 2 powi (bexp a - 52) - a\<bar>"
proof -
  define u :: rat where "u = 2 powi (bexp a - 52)"
  have u: "0 < u" by (simp add: u_def)
  define m where "m = mantissa a (bexp a)"
  have y: "y = of_int m * u"
    using round_double_value(1) [OF assms] by (simp add: m_def u_def)
  have "\<bar>of_int m - a / u\<bar> \<le> \<bar>of_int K - a / u\<bar>"
    unfolding m_def mantissa_def u_def by (rule rhe_nearest)
  then have "\<bar>of_int m - a / u\<bar> * u \<le> \<bar>of_int K - a / u\<bar> * u"
    using u by (intro mult_right_mono) simp_all
  moreover have "\<bar>of_int m - a / u\<bar> * u = \<bar>of_int m * u - a\<bar>"
    using u by (rule abs_scale)
  moreover have "\<bar>of_int K - a / u\<bar> * u = \<bar>of_int K * u - a\<bar>"
    using u by (rule abs_scale)
  ultimately show ?thesis
    unfolding y u_def by simp
qed

lemma round_double_nearest_pos:
  assumes "0 < a" and "round_double a = Fin y" and "round_double x = Fin x"
  shows "\<bar>y - a\<bar> \<le> \<bar>x - a\<bar>"
proof (cases "0 < x")
  case False
  have "\<bar>y - a\<bar> \<le> \<bar>of_int 0 * 2 powi (bexp a - 52) - a\<bar>"
    using assms(1,2) by (rule nearest_on_grid)
  with False assms(1) show ?thesis by simp
next
  case True
  define M where "M = mantissa x (bexp x)"
  have x: "x = of_int M * 2 powi (bexp x - 52)"
    using round_double_value(1) [OF True assms(3)] by (simp add: M_def)
  show ?thesis
  proof (cases "bexp a \<le> bexp x")
    case True
    define j where "j = nat (bexp x - bexp a)"
    have "(2::rat) powi (bexp x - 52) = 2 powi (int j + (bexp a - 52))"
      using True by (simp add: j_def)
    also have "\<dots> = 2 powi int j * 2 powi (bexp a - 52)"
      by (rule power_int_add) simp
    finally have "of_int M * (2::rat) powi (bexp x - 52) = of_int (M * 2 ^ j) * 2 powi (bexp a - 52)"
      by simp
    then have "x = of_int (M * 2 ^ j) * 2 powi (bexp a - 52)"
      using x by simp
    with nearest_on_grid [OF assms(1,2), of "M * 2 ^ j"] show ?thesis by simp
  next
    case False
    then have lt: "bexp x < bexp a" by simp
    have "bexp a = max (flog 2 a) (- 1022)"
      using assms(1) by (simp add: bexp_def)
    with lt bexp_ge [of x] have "flog 2 a = bexp a"
      by linarith
    then have lo: "2 powi bexp a \<le> a"
      using flog_bounds [of 2 a] assms(1) by simp
    have "flog 2 x \<le> bexp x"
      using \<open>0 < x\<close> by (simp add: bexp_def)
    then have "(2::rat) powi (flog 2 x + 1) \<le> 2 powi bexp a"
      using lt by (intro power_int_increasing) simp_all
    then have hi: "x < 2 powi bexp a"
      using flog_bounds [of 2 x] \<open>0 < x\<close> by simp
    have "(2::rat) powi bexp a = of_int (2 ^ 52) * 2 powi (bexp a - 52)"
      by (simp add: power_int_diff)
    with nearest_on_grid [OF assms(1,2), of "2 ^ 52"]
    have "\<bar>y - a\<bar> \<le> \<bar>2 powi bexp a - a\<bar>" by simp
    with lo hi show ?thesis by linarith
  qed
qed

lemma round_double_nearest:
  assumes "round_double a = Fin y" and "round_double x = Fin x"
  shows "\<bar>y - a\<bar> \<le> \<bar>x - a\<bar>"
proof -
  consider "a = 0" | "0 < a" | "a < 0" by linarith
  then show ?thesis
  proof cases
    case 1
    with assms(1) show ?thesis by (simp add: round_double_def)
  next
    case 2
    then show ?thesis using assms by (rule round_double_nearest_pos)
  next
    case 3
    have "round_double (- a) = Fin (- y)" "round_double (- x) = Fin (- x)"
      using assms by (simp_all add: round_double_minus jneg_def)
    with 3 round_double_nearest_pos [of "- a" "- y" "- x"]
    have "\<bar>- y - - a\<bar> \<le> \<bar>- x - - a\<bar>" by simp
    then show ?thesis by (simp add: abs_minus_commute)
  qed
qed

lemma round_double_mono_ge:
  assumes "round_double a = Fin y" and "round_double x = Fin x" and "x \<le> a"
  shows "x \<le> y"
  using round_double_nearest [OF assms(1,2)] assms(3) by linarith

lemma round_double_mono_le:
  assumes "round_double a = Fin y" and "round_double x = Fin x" and "a \<le> x"
  shows "y \<le> x"
  using round_double_nearest [OF assms(1,2)] assms(3) by linarith

lemma double_integral:
  assumes "round_double x = Fin x" and "2 ^ 52 \<le> \<bar>x\<bar>"
  shows "\<exists>k. x = of_int k"
proof -
  have p: "\<exists>k. x = of_int k" if "round_double x = Fin x" "2 ^ 52 \<le> x" for x
  proof -
    have x0: "0 < x" using that(2) by (meson less_le_trans zero_less_numeral zero_less_power)
    define M where "M = mantissa x (bexp x)"
    have x: "x = of_int M * 2 powi (bexp x - 52)"
      using round_double_value(1) [OF x0 that(1)] by (simp add: M_def)
    have "(2::rat) powi 52 \<le> x" using that(2) by simp
    then have "52 \<le> flog 2 x" by (rule flog2_ge)
    then have "52 \<le> bexp x" using x0 by (simp add: bexp_def)
    then have "(2::rat) powi (bexp x - 52) = of_int (2 ^ nat (bexp x - 52))"
      by (simp add: power_int_def)
    with x have "x = of_int (M * 2 ^ nat (bexp x - 52))" by simp
    then show ?thesis by blast
  qed
  show ?thesis
  proof (cases "0 \<le> x")
    case True
    with assms p show ?thesis by simp
  next
    case False
    have "round_double (- x) = Fin (- x)"
      using assms(1) by (simp add: round_double_minus jneg_def)
    with False assms(2) p [of "- x"] obtain k where "- x = of_int k" by auto
    then have "x = of_int (- k)" by simp
    then show ?thesis by blast
  qed
qed

section \<open>Digits\<close>

declare dec_digits.simps [simp del]

lemma digit_facts:
  assumes "0 \<le> d" and "d \<le> 9"
  shows "is_digit (digit d)" and "uint (digit d) = 48 + d"
proof -
  from assms have "d = 0 \<or> d = 1 \<or> d = 2 \<or> d = 3 \<or> d = 4 \<or> d = 5 \<or> d = 6 \<or> d = 7 \<or> d = 8 \<or> d = 9"
    by presburger
  then show "is_digit (digit d)" and "uint (digit d) = 48 + d"
    by (auto simp: digit_def is_digit_def)
qed

lemma is_digit_not_space: "is_digit c \<Longrightarrow> \<not> is_space c"
  by (auto simp: is_digit_def is_space_def word_le_nat_alt)

lemma is_digit_not_mark:
  "is_digit c \<Longrightarrow> c \<noteq> 0x2D \<and> c \<noteq> 0x2B \<and> c \<noteq> 0x2E \<and> c \<noteq> 0x65 \<and> c \<noteq> 0x45"
  by (auto simp: is_digit_def)

lemma digits_val_snoc: "digits_val (ds @ [c]) = 10 * digits_val ds + (uint c - 48)"
  by (simp add: digits_val_def)

lemma dec_digits_props:
  "0 \<le> n \<Longrightarrow>
   dec_digits n \<noteq> [] \<and> (\<forall>c \<in> set (dec_digits n). is_digit c) \<and> digits_val (dec_digits n) = n"
proof (induction n rule: dec_digits.induct)
  case (1 n)
  show ?case
  proof (cases "n < 10")
    case True
    with 1(2) digit_facts [of n] show ?thesis
      by (simp add: dec_digits.simps [of n] digits_val_def)
  next
    case False
    then have "0 \<le> n div 10" by simp
    with 1(1) False have ih: "\<forall>c \<in> set (dec_digits (n div 10)). is_digit c"
      "digits_val (dec_digits (n div 10)) = n div 10"
      by simp_all
    have "0 \<le> n mod 10" "n mod 10 \<le> 9" by simp_all
    with digit_facts [of "n mod 10"] ih False show ?thesis
      by (simp add: dec_digits.simps [of n] digits_val_snoc)
  qed
qed

lemma length_dec_digits:
  "0 \<le> n \<Longrightarrow> n < 10 ^ k \<Longrightarrow> 0 < k \<Longrightarrow> length (dec_digits n) \<le> k"
proof (induction n arbitrary: k rule: dec_digits.induct)
  case (1 n)
  show ?case
  proof (cases "n < 10")
    case True
    with 1(4) show ?thesis by (simp add: dec_digits.simps [of n] Suc_leI)
  next
    case False
    obtain j where k: "k = Suc j" using 1(4) by (cases k) simp_all
    have j: "0 < j"
    proof (rule ccontr)
      assume "\<not> 0 < j"
      with k 1(3) False show False by simp
    qed
    define t :: int where "t = 10 ^ j"
    have "n < 10 * t"
      using 1(3) unfolding k t_def by simp
    then have "n div 10 < t" by linarith
    then have "n div 10 < 10 ^ j" by (simp add: t_def)
    with 1(1) [OF False _ _ j] have "length (dec_digits (n div 10)) \<le> j"
      using False by simp
    then show ?thesis
      using False by (simp add: dec_digits.simps [of n] k)
  qed
qed

lemma digits_val_append:
  "digits_val (xs @ ys) = digits_val xs * 10 ^ length ys + digits_val ys"
proof (induction ys rule: rev_induct)
  case Nil
  show ?case by (simp add: digits_val_def)
next
  case (snoc c ys)
  have "digits_val (xs @ ys @ [c]) = 10 * digits_val (xs @ ys) + (uint c - 48)"
    using digits_val_snoc [of "xs @ ys" c] by simp
  with snoc show ?case
    by (simp add: digits_val_snoc algebra_simps)
qed

lemma digits_val_bounds:
  "\<forall>c \<in> set ds. is_digit c \<Longrightarrow> 0 \<le> digits_val ds \<and> digits_val ds < 10 ^ length ds"
proof (induction ds rule: rev_induct)
  case Nil
  show ?case by (simp add: digits_val_def)
next
  case (snoc c ds)
  then have "is_digit c" by simp
  then have "48 \<le> uint c \<and> uint c \<le> 57"
    by (simp add: is_digit_def word_le_def)
  with snoc show ?case
    by (simp add: digits_val_snoc)
qed

lemma takeWhile_digits:
  assumes "\<forall>c \<in> set ds. is_digit c" and "rest = [] \<or> \<not> is_digit (hd rest)"
  shows "takeWhile is_digit (ds @ rest) = ds" and "dropWhile is_digit (ds @ rest) = rest"
proof -
  have "takeWhile is_digit rest = []" "dropWhile is_digit rest = rest"
    using assms(2) by (cases rest; simp)+
  with assms(1) show "takeWhile is_digit (ds @ rest) = ds"
    and "dropWhile is_digit (ds @ rest) = rest"
    by (simp_all add: takeWhile_append2 dropWhile_append2)
qed

lemma parseInt_digits:
  assumes "ds \<noteq> []" and "\<forall>c \<in> set ds. is_digit c" and "rest = [] \<or> \<not> is_digit (hd rest)"
  shows "parseInt (ds @ rest) = round_double (of_int (digits_val ds))"
    and "parseInt (0x2D # ds @ rest) = round_double (of_int (- digits_val ds))"
proof -
  obtain c cs where ds: "ds = c # cs" using assms(1) by (cases ds) simp_all
  with assms(2) have c: "is_digit c" by simp
  have t: "takeWhile is_digit (ds @ rest) = ds"
    using assms(2,3) by (rule takeWhile_digits)
  have s1: "split_sign (trim_start (ds @ rest)) = (1, ds @ rest)"
    using c is_digit_not_space [OF c] is_digit_not_mark [OF c]
    by (simp add: ds trim_start_def split_sign_def)
  have "\<not> is_space 0x2D" by (simp add: is_space_def)
  then have s2: "split_sign (trim_start (0x2D # ds @ rest)) = (- 1, ds @ rest)"
    by (simp add: trim_start_def split_sign_def)
  show "parseInt (ds @ rest) = round_double (of_int (digits_val ds))"
    using assms(1) by (simp add: parseInt_def s1 t)
  show "parseInt (0x2D # ds @ rest) = round_double (of_int (- digits_val ds))"
    using assms(1) by (simp add: parseInt_def s2 t)
qed

section \<open>The digits of a number\<close>

lemma cand_norm_props:
  assumes "0 \<le> t" and "0 < k"
  shows "0 \<le> fst (cand_norm t n k) \<and> fst (cand_norm t n k) < 10 ^ k"
proof -
  have "(10::int) ^ (k - 1) < 10 ^ k"
    using assms(2) by (intro power_strict_increasing) simp_all
  with assms(1) show ?thesis
    by (simp add: cand_norm_def)
qed

lemma nearest_cand_props:
  assumes "0 \<le> x" and "0 < k"
  shows "0 \<le> fst (nearest_cand x n k) \<and> fst (nearest_cand x n k) < 10 ^ k"
proof -
  have "(of_int 0 :: rat) \<le> x / 10 powi (n - int k)"
    using assms(1) by simp
  then have "0 \<le> round_half_even (x / 10 powi (n - int k))" by (rule rhe_ge)
  then show ?thesis
    unfolding nearest_cand_def using assms(2) by (rule cand_norm_props)
qed

lemma other_cand_props:
  assumes "0 \<le> x" and "0 < k"
  shows "0 \<le> fst (other_cand x n k) \<and> fst (other_cand x n k) < 10 ^ k"
proof -
  have "0 \<le> x / 10 powi (n - int k)"
    using assms(1) by simp
  then have "0 \<le> \<lfloor>x / 10 powi (n - int k)\<rfloor>" by simp
  then have "0 \<le> other_digits (x / 10 powi (n - int k))
                    (round_half_even (x / 10 powi (n - int k)))"
    by (simp add: other_digits_def)
  then show ?thesis
    unfolding other_cand_def using assms(2) by (rule cand_norm_props)
qed

lemma digit_cand_props:
  assumes "0 \<le> x" and "0 < k" and "digit_cand x n k = Some c"
  shows "0 \<le> fst c \<and> fst c < 10 ^ k"
proof -
  from assms(3) have "c = nearest_cand x n k \<or> c = other_cand x n k"
    by (auto simp: digit_cand_def pick_def split: if_splits)
  with nearest_cand_props [OF assms(1,2)] other_cand_props [OF assms(1,2)]
  show ?thesis by blast
qed

lemma shortest_props:
  "0 \<le> x \<Longrightarrow> 0 < k \<Longrightarrow> shortest x n k fuel = (s, n', k') \<Longrightarrow> 0 \<le> s \<and> s < 10 ^ k' \<and> 0 < k'"
proof (induction fuel arbitrary: k)
  case 0
  show ?case
  proof (cases "digit_cand x n k")
    case None
    with 0 nearest_cand_props [OF 0(1,2), of n] show ?thesis by auto
  next
    case (Some c)
    with 0 digit_cand_props [OF 0(1,2) Some] show ?thesis by auto
  qed
next
  case (Suc fuel)
  show ?case
  proof (cases "digit_cand x n k")
    case None
    with Suc.prems have "shortest x n (Suc k) fuel = (s, n', k')" by simp
    with Suc.IH [of "Suc k"] Suc.prems(1) show ?thesis by simp
  next
    case (Some c)
    with Suc.prems digit_cand_props [OF Suc.prems(1,2) Some] show ?thesis by auto
  qed
qed

lemma num_digits_props:
  "0 \<le> x \<Longrightarrow> num_digits x = (s, n, k) \<Longrightarrow> 0 \<le> s \<and> s < 10 ^ k \<and> 0 < k"
  using shortest_props [of x 1] by (simp add: num_digits_def Let_def)

lemma pos_to_string_shape:
  assumes "0 \<le> x"
  shows "\<exists>ds rest. pos_to_string x = ds @ rest \<and> ds \<noteq> [] \<and> (\<forall>c \<in> set ds. is_digit c)
           \<and> length ds \<le> 21 \<and> (rest = [] \<or> \<not> is_digit (hd rest))"
proof -
  obtain s n k where nd: "num_digits x = (s, n, k)" by (cases "num_digits x")
  from num_digits_props [OF assms nd] have s: "0 \<le> s" "s < 10 ^ k" "0 < k" by simp_all
  define ds where "ds = dec_digits s"
  have ds: "ds \<noteq> []" "\<forall>c \<in> set ds. is_digit c"
    using dec_digits_props [OF s(1)] by (simp_all add: ds_def)
  have len: "length ds \<le> k"
    unfolding ds_def using s by (rule length_dec_digits)
  have z: "is_digit 0x30" by (simp add: is_digit_def)
  have nd0: "\<not> is_digit 0x2E" "\<not> is_digit 0x65" by (simp_all add: is_digit_def)
  have shape: "\<exists>ds' rest. r = ds' @ rest \<and> ds' \<noteq> [] \<and> (\<forall>c \<in> set ds'. is_digit c)
           \<and> length ds' \<le> 21 \<and> (rest = [] \<or> \<not> is_digit (hd rest))"
    if "r = d1 @ rest" "d1 \<noteq> []" "\<forall>c \<in> set d1. is_digit c" "length d1 \<le> 21"
      "rest = [] \<or> \<not> is_digit (hd rest)" for r d1 rest
    using that by blast
  consider (plain) "- 5 \<le> n" "n \<le> 21" "int k \<le> n"
    | (point) "- 5 \<le> n" "n \<le> 21" "\<not> int k \<le> n" "0 < n"
    | (small) "- 5 \<le> n" "n \<le> 21" "\<not> int k \<le> n" "\<not> 0 < n"
    | (exp1) "\<not> (- 5 \<le> n \<and> n \<le> 21)" "k = 1"
    | (expn) "\<not> (- 5 \<le> n \<and> n \<le> 21)" "k \<noteq> 1"
    by blast
  then show ?thesis
  proof cases
    case plain
    then have "pos_to_string x = (ds @ replicate (nat n - k) 0x30) @ []"
      by (simp add: pos_to_string_def nd ds_def Let_def)
    moreover have "length (ds @ replicate (nat n - k) 0x30) \<le> 21"
      using len plain by simp
    ultimately show ?thesis
      using ds z by (intro shape [of _ "ds @ replicate (nat n - k) 0x30" "[]"]) auto
  next
    case point
    then have "pos_to_string x = take (nat n) ds @ (0x2E # drop (nat n) ds)"
      by (simp add: pos_to_string_def nd ds_def js_def Let_def)
    moreover have "take (nat n) ds \<noteq> []" using ds(1) point by simp
    moreover have "\<forall>c \<in> set (take (nat n) ds). is_digit c"
      using ds(2) by (meson in_set_takeD)
    moreover have "length (take (nat n) ds) \<le> 21" using point by simp
    ultimately show ?thesis
      using nd0 by (intro shape [of _ "take (nat n) ds" "0x2E # drop (nat n) ds"]) auto
  next
    case small
    then have "pos_to_string x = [0x30] @ (0x2E # replicate (nat (- n)) 0x30 @ ds)"
      by (simp add: pos_to_string_def nd ds_def js_def Let_def)
    then show ?thesis
      using nd0 z by (intro shape [of _ "[0x30]" "0x2E # replicate (nat (- n)) 0x30 @ ds"]) auto
  next
    case exp1
    then have c: "(- 5 \<le> n \<and> n \<le> 21) = False" by simp
    from exp1 have "pos_to_string x
        = ds @ (0x65 # (if n < 0 then js ''-'' else js ''+'') @ dec_digits \<bar>n - 1\<bar>)"
      by (simp add: pos_to_string_def nd ds_def js_def Let_def c)
    moreover have "length ds \<le> 21" using len exp1 by simp
    ultimately show ?thesis
      using nd0 ds by (intro shape [of _ ds "0x65 # (if n < 0 then js ''-'' else js ''+'') @ dec_digits \<bar>n - 1\<bar>"]) auto
  next
    case expn
    then have c: "(- 5 \<le> n \<and> n \<le> 21) = False" by simp
    from expn have "pos_to_string x
        = take 1 ds @ (0x2E # drop 1 ds @ 0x65 # (if n < 0 then js ''-'' else js ''+'') @ dec_digits \<bar>n - 1\<bar>)"
      by (simp add: pos_to_string_def nd ds_def js_def Let_def c)
    moreover have "take 1 ds \<noteq> []" using ds(1) by simp
    moreover have "\<forall>c \<in> set (take 1 ds). is_digit c"
      using ds(2) by (meson in_set_takeD)
    ultimately show ?thesis
      using nd0 by (intro shape [of _ "take 1 ds" "0x2E # drop 1 ds @ 0x65 # (if n < 0 then js ''-'' else js ''+'') @ dec_digits \<bar>n - 1\<bar>"]) auto
  qed
qed

lemma ten21: "(10::rat) ^ 21 < 2 powi 1023"
proof -
  have "(10::int) ^ 21 < 2 ^ 1023" by simp
  then have "(of_int (10 ^ 21) :: rat) < of_int (2 ^ 1023)"
    by (simp only: of_int_less_iff)
  then show ?thesis by simp
qed

lemma toInt_nonpositive:
  assumes "x \<le> 0"
  shows "toInt (JNum (Fin x)) 1 9999 = Inr 1"
proof -
  have "\<exists>y. parseInt (num_to_string (Fin x)) = Fin y \<and> y \<le> 0"
  proof (cases "x = 0")
    case True
    have "parseInt (js ''0'') = Fin 0" by code_simp
    with True show ?thesis by (simp add: num_to_string_def)
  next
    case False
    with assms have x: "0 \<le> - x" "x < 0" by simp_all
    from pos_to_string_shape [OF x(1)] obtain ds rest where
      p: "pos_to_string (- x) = ds @ rest" "ds \<noteq> []" "\<forall>c \<in> set ds. is_digit c"
         "length ds \<le> 21" "rest = [] \<or> \<not> is_digit (hd rest)"
      by blast
    have n: "num_to_string (Fin x) = 0x2D # ds @ rest"
      using x p(1) by (simp add: num_to_string_def js_def)
    define v where "v = digits_val ds"
    have v: "0 \<le> v" "v < 10 ^ length ds"
      using digits_val_bounds [OF p(3)] by (simp_all add: v_def)
    have "(10::int) ^ length ds \<le> 10 ^ 21"
      using p(4) by (intro power_increasing) simp_all
    with v have "v < 10 ^ 21" by linarith
    then have "(of_int v :: rat) < of_int (10 ^ 21)"
      by (simp only: of_int_less_iff)
    then have "\<bar>of_int (- v) :: rat\<bar> < 2 powi 1023"
      using v(1) ten21 by simp
    from round_double_finite [OF this] obtain y
      where y: "round_double (of_int (- v)) = Fin y" "y \<le> 0"
      using v(1) by auto
    have "parseInt (num_to_string (Fin x)) = round_double (of_int (- v))"
      unfolding n v_def using p(2,3,5) by (rule parseInt_digits)
    with y show ?thesis by simp
  qed
  then obtain y where "parseInt (num_to_string (Fin x)) = Fin y" "y \<le> 0" by blast
  then show ?thesis
    by (simp add: toInt_def)
qed

section \<open>Quantities\<close>

lemma toInt_finite_range:
  assumes "js_String v = Inr s" and "parseInt s = Fin n"
  shows "\<exists>q. toInt v 1 9999 = Inr q \<and> 1 \<le> q \<and> q \<le> 9999"
  using assms by (simp add: toInt_def)

lemma toInt_nonpositive_result:
  assumes "toInt v 1 9999 = Inr q" and "q \<le> 0"
  shows "q = 0 \<and> (\<exists>s. js_String v = Inr s \<and> (\<forall>n. parseInt s \<noteq> Fin n))"
proof -
  from assms(1) obtain s where s: "js_String v = Inr s"
    by (cases "js_String v") (simp_all add: toInt_def)
  show ?thesis
  proof (cases "parseInt s")
    case (Fin n)
    with s assms show ?thesis by (simp add: toInt_def)
  qed (use s assms in \<open>simp_all add: toInt_def\<close>)
qed

lemma round_double_overflow:
  assumes "2 powi 1024 \<le> a"
  shows "round_double a = PosInf"
proof -
  have "(0::rat) < 2 powi 1024" by simp
  with assms have p: "0 < a" by linarith
  have "1024 \<le> flog 2 a"
    using assms by (rule flog2_ge)
  with p have "1023 < bexp a"
    by (simp add: bexp_def)
  then show ?thesis
    using p by (simp add: round_double_pos pack_def)
qed

lemma digits_val_one_zeros:
  "digits_val (0x31 # replicate n 0x30) = 10 ^ n"
proof (induction n)
  case 0
  show ?case by (simp add: digits_val_def)
next
  case (Suc n)
  have "0x31 # replicate (Suc n) (0x30 :: cu) = (0x31 # replicate n 0x30) @ [0x30]"
    by (simp add: replicate_append_same)
  then show ?case
    using Suc digits_val_snoc [of "0x31 # replicate n 0x30" "0x30"] by simp
qed

lemma parseInt_overflow:
  "parseInt (0x31 # replicate 309 0x30) = PosInf"
proof -
  have "parseInt ((0x31 # replicate 309 0x30) @ [])
      = round_double (of_int (digits_val (0x31 # replicate 309 0x30)))"
    by (rule parseInt_digits) (simp_all add: is_digit_def)
  moreover have "(2::rat) powi 1024 \<le> of_int (10 ^ 309)"
    by simp
  ultimately show ?thesis
    by (simp add: digits_val_one_zeros round_double_overflow del: of_int_power)
qed

lemma toInt_not_finite:
  assumes "js_String v = Inr s \<and> (\<forall>n. parseInt s \<noteq> Fin n)"
  shows "toInt v 1 9999 = Inr 0"
  using assms by (cases "parseInt s") (simp_all add: toInt_def)

text \<open>
  Claim C10. When the string form of the raw quantity parses to a finite integer,
  \<^verbatim>\<open>toInt(value, 1, 9999)\<close> is in 1..9999. So a quantity that is the number 0 or a negative
  number gives 1, and a row with such a quantity (timestamp and item not empty) is accepted
  with quantity 1. When the string form does not parse to a finite integer (no digits, or an
  infinite value), \<^verbatim>\<open>toInt\<close> returns 0 and the row is rejected as \<^verbatim>\<open>invalid_row\<close> with
  quantity 0 in the hint. A result that is not positive can only be that 0, and a row with
  a timestamp and an item is rejected only in that way.
\<close>

theorem quantity_clamped:
  "(\<forall>v s n. js_String v = Inr s \<and> parseInt s = Fin n \<longrightarrow>
      (\<exists>q. toInt v 1 9999 = Inr q \<and> 1 \<le> q \<and> q \<le> 9999))
   \<and> (\<forall>x. x \<le> 0 \<longrightarrow> toInt (JNum (Fin x)) 1 9999 = Inr 1)
   \<and> (\<forall>r x sub vat tot.
        \<not> nullish r \<and> own_prop r (js ''qty'') = JNum (Fin x) \<and> x \<le> 0
        \<and> safeText (own_prop r (js ''timestamp'')) 64 \<noteq> []
        \<and> safeText (own_prop r (js ''item'')) 96 \<noteq> []
        \<and> toMoney (own_prop r (js ''subtotal'')) = Inr sub
        \<and> toMoney (own_prop r (js ''vat'')) = Inr vat
        \<and> toMoney (own_prop r (js ''total'')) = Inr tot
        \<longrightarrow> (\<exists>row. sanitize_row r = Continues row \<and> qty row = 1))
   \<and> (\<forall>v q. toInt v 1 9999 = Inr q \<and> q \<le> 0 \<longrightarrow>
        q = 0 \<and> (\<exists>s. js_String v = Inr s \<and> (\<forall>n. parseInt s \<noteq> Fin n)))
   \<and> (\<forall>r resp.
        sanitize_row r = Returns resp
        \<and> safeText (own_prop r (js ''timestamp'')) 64 \<noteq> []
        \<and> safeText (own_prop r (js ''item'')) 96 \<noteq> []
        \<longrightarrow> resp = invalid_row (safeText (own_prop r (js ''item'')) 96) 0
            \<and> (\<exists>s. js_String (own_prop r (js ''qty'')) = Inr s \<and> (\<forall>n. parseInt s \<noteq> Fin n)))
   \<and> (\<forall>v s. js_String v = Inr s \<and> (\<forall>n. parseInt s \<noteq> Fin n) \<longrightarrow> toInt v 1 9999 = Inr 0)
   \<and> (\<forall>r s sub vat tot.
        \<not> nullish r \<and> js_String (own_prop r (js ''qty'')) = Inr s \<and> (\<forall>n. parseInt s \<noteq> Fin n)
        \<and> toMoney (own_prop r (js ''subtotal'')) = Inr sub
        \<and> toMoney (own_prop r (js ''vat'')) = Inr vat
        \<and> toMoney (own_prop r (js ''total'')) = Inr tot
        \<longrightarrow> sanitize_row r = Returns (invalid_row (safeText (own_prop r (js ''item'')) 96) 0))"
proof (intro conjI allI impI)
  fix v s n
  assume "js_String v = Inr s \<and> parseInt s = Fin n"
  then show "\<exists>q. toInt v 1 9999 = Inr q \<and> 1 \<le> q \<and> q \<le> 9999"
    using toInt_finite_range by blast
next
  fix x :: rat
  assume "x \<le> 0"
  then show "toInt (JNum (Fin x)) 1 9999 = Inr 1"
    by (rule toInt_nonpositive)
next
  fix r x sub vat tot
  assume a: "\<not> nullish r \<and> own_prop r (js ''qty'') = JNum (Fin x) \<and> x \<le> 0
        \<and> safeText (own_prop r (js ''timestamp'')) 64 \<noteq> []
        \<and> safeText (own_prop r (js ''item'')) 96 \<noteq> []
        \<and> toMoney (own_prop r (js ''subtotal'')) = Inr sub
        \<and> toMoney (own_prop r (js ''vat'')) = Inr vat
        \<and> toMoney (own_prop r (js ''total'')) = Inr tot"
  then have "toInt (own_prop r (js ''qty'')) 1 9999 = Inr 1"
    using toInt_nonpositive [of x] by simp
  with a show "\<exists>row. sanitize_row r = Continues row \<and> qty row = 1"
    by (simp add: sanitize_row_def Let_def)
next
  fix v q
  assume "toInt v 1 9999 = Inr q \<and> q \<le> 0"
  then show "q = 0" and "\<exists>s. js_String v = Inr s \<and> (\<forall>n. parseInt s \<noteq> Fin n)"
    using toInt_nonpositive_result by blast+
next
  fix r resp
  assume a: "sanitize_row r = Returns resp
        \<and> safeText (own_prop r (js ''timestamp'')) 64 \<noteq> []
        \<and> safeText (own_prop r (js ''item'')) 96 \<noteq> []"
  then obtain q where q: "toInt (own_prop r (js ''qty'')) 1 9999 = Inr q" "q \<le> 0"
    and resp: "resp = invalid_row (safeText (own_prop r (js ''item'')) 96) q"
    by (auto simp: sanitize_row_def Let_def split: if_splits sum.splits)
  from toInt_nonpositive_result [OF q] resp
  show "resp = invalid_row (safeText (own_prop r (js ''item'')) 96) 0"
    and "\<exists>s. js_String (own_prop r (js ''qty'')) = Inr s \<and> (\<forall>n. parseInt s \<noteq> Fin n)"
    by simp_all
next
  fix v s
  assume "js_String v = Inr s \<and> (\<forall>n. parseInt s \<noteq> Fin n)"
  then show "toInt v 1 9999 = Inr 0"
    by (rule toInt_not_finite)
next
  fix r s sub vat tot
  assume a: "\<not> nullish r \<and> js_String (own_prop r (js ''qty'')) = Inr s
        \<and> (\<forall>n. parseInt s \<noteq> Fin n)
        \<and> toMoney (own_prop r (js ''subtotal'')) = Inr sub
        \<and> toMoney (own_prop r (js ''vat'')) = Inr vat
        \<and> toMoney (own_prop r (js ''total'')) = Inr tot"
  then have "toInt (own_prop r (js ''qty'')) 1 9999 = Inr 0"
    using toInt_not_finite [of "own_prop r (js ''qty'')" s] by simp
  with a show "sanitize_row r = Returns (invalid_row (safeText (own_prop r (js ''item'')) 96) 0)"
    by (simp add: sanitize_row_def Let_def)
qed

theorem quantity_clamped_witness:
  "(\<exists>q. toInt (JStr (js ''-7'')) 1 9999 = Inr q \<and> 1 \<le> q \<and> q \<le> 9999)
   \<and> (\<exists>row. sanitize_row zero_qty_row = Continues row \<and> qty row = 1)
   \<and> toInt (JStr (js ''many'')) 1 9999 = Inr 0
   \<and> (\<exists>s. js_String (JStr (js ''many'')) = Inr s \<and> (\<forall>n. parseInt s \<noteq> Fin n))
   \<and> parseInt (0x31 # replicate 309 0x30) = PosInf
   \<and> toInt (JStr (0x31 # replicate 309 0x30)) 1 9999 = Inr 0
   \<and> sanitize_row word_qty_row = Returns (invalid_row (js ''Coffee'') 0)"
proof -
  note c1 = quantity_clamped [THEN conjunct1, rule_format]
  note c3 = quantity_clamped [THEN conjunct2, THEN conjunct2, THEN conjunct1, rule_format]
  note c6 = quantity_clamped [THEN conjunct2, THEN conjunct2, THEN conjunct2, THEN conjunct2,
      THEN conjunct2, THEN conjunct1, rule_format]
  note c7 = quantity_clamped [THEN conjunct2, THEN conjunct2, THEN conjunct2, THEN conjunct2,
      THEN conjunct2, THEN conjunct2, rule_format]
  have "js_String (JStr (js ''-7'')) = Inr (js ''-7'')" "parseInt (js ''-7'') = Fin (- 7)"
    by code_simp+
  then have a: "\<exists>q. toInt (JStr (js ''-7'')) 1 9999 = Inr q \<and> 1 \<le> q \<and> q \<le> 9999"
    by (intro c1) simp
  have "\<not> nullish zero_qty_row"
    by (simp add: nullish_def zero_qty_row_def)
  moreover have "own_prop zero_qty_row (js ''qty'') = JNum (Fin 0)"
    and "safeText (own_prop zero_qty_row (js ''timestamp'')) 64 \<noteq> []"
    and "safeText (own_prop zero_qty_row (js ''item'')) 96 \<noteq> []"
    and "toMoney (own_prop zero_qty_row (js ''subtotal'')) = Inr (js ''0.00'')"
    and "toMoney (own_prop zero_qty_row (js ''vat'')) = Inr (js ''0.00'')"
    and "toMoney (own_prop zero_qty_row (js ''total'')) = Inr (js ''0.00'')"
    by code_simp+
  ultimately have b: "\<exists>row. sanitize_row zero_qty_row = Continues row \<and> qty row = 1"
    by (intro c3 [of zero_qty_row 0]) simp
  have m: "js_String (JStr (js ''many'')) = Inr (js ''many'')" "parseInt (js ''many'') = NaN"
    by code_simp+
  then have nf: "\<forall>n. parseInt (js ''many'') \<noteq> Fin n" by simp
  with m(1) have c: "toInt (JStr (js ''many'')) 1 9999 = Inr 0"
    by (intro c6) simp
  from m(1) nf have d: "\<exists>s. js_String (JStr (js ''many'')) = Inr s \<and> (\<forall>n. parseInt s \<noteq> Fin n)"
    by blast
  have "\<forall>n. parseInt (0x31 # replicate 309 0x30) \<noteq> Fin n"
    by (simp add: parseInt_overflow)
  moreover have "js_String (JStr (0x31 # replicate 309 0x30)) = Inr (0x31 # replicate 309 0x30)"
    by simp
  ultimately have e: "toInt (JStr (0x31 # replicate 309 0x30)) 1 9999 = Inr 0"
    by (intro c6) simp
  have "\<not> nullish word_qty_row"
    by (simp add: nullish_def word_qty_row_def)
  moreover have "js_String (own_prop word_qty_row (js ''qty'')) = Inr (js ''many'')"
    and "toMoney (own_prop word_qty_row (js ''subtotal'')) = Inr (js ''0.00'')"
    and "toMoney (own_prop word_qty_row (js ''vat'')) = Inr (js ''0.00'')"
    and "toMoney (own_prop word_qty_row (js ''total'')) = Inr (js ''0.00'')"
    by code_simp+
  ultimately have "sanitize_row word_qty_row
      = Returns (invalid_row (safeText (own_prop word_qty_row (js ''item'')) 96) 0)"
    using nf by (intro c7) simp
  moreover have "safeText (own_prop word_qty_row (js ''item'')) 96 = js ''Coffee''"
    by code_simp
  ultimately have f: "sanitize_row word_qty_row = Returns (invalid_row (js ''Coffee'') 0)"
    by simp
  from a b c d e f parseInt_overflow show ?thesis by blast
qed

section \<open>Sanitizing twice: \<^verbatim>\<open>safeText\<close>\<close>

lemma replace_ctl_runs_id: "\<forall>c \<in> set s. \<not> is_ctl c \<Longrightarrow> replace_ctl_runs s = s"
  by (induction s) simp_all

lemma trim_end_prefix: "\<exists>sp. s = trim_end s @ sp \<and> (\<forall>c \<in> set sp. is_space c)"
proof -
  have "rev s = takeWhile is_space (rev s) @ dropWhile is_space (rev s)" by simp
  then have "s = rev (dropWhile is_space (rev s)) @ rev (takeWhile is_space (rev s))"
    by (metis rev_append rev_rev_ident)
  moreover have "\<forall>c \<in> set (rev (takeWhile is_space (rev s))). is_space c"
    by (auto dest: set_takeWhileD)
  ultimately show ?thesis
    unfolding trim_end_def by blast
qed

lemma trim_end_id: "trim_end s = s \<longleftrightarrow> s = [] \<or> \<not> is_space (last s)"
proof (cases s rule: rev_cases)
  case Nil
  then show ?thesis by (simp add: trim_end_def)
next
  case (snoc xs c)
  show ?thesis
  proof (cases "is_space c")
    case True
    then have "length (trim_end s) \<le> length xs"
      using length_dropWhile_le [of is_space "rev xs"] by (simp add: snoc trim_end_def)
    then have "trim_end s \<noteq> s" using snoc by auto
    with True snoc show ?thesis by simp
  next
    case False
    then show ?thesis by (simp add: snoc trim_end_def)
  qed
qed

lemma trim_hd: "trim s \<noteq> [] \<Longrightarrow> \<not> is_space (hd (trim s))"
proof -
  assume a: "trim s \<noteq> []"
  define w where "w = dropWhile is_space s"
  from trim_end_prefix [of w] obtain sp where sp: "w = trim_end w @ sp" by blast
  have t: "trim s = trim_end w" by (simp add: trim_def trim_start_def w_def)
  with a sp have "hd w = hd (trim s)"
    by (metis hd_append2)
  moreover have "w \<noteq> []" using a t sp by auto
  then have "\<not> is_space (hd w)"
    unfolding w_def by (simp add: hd_dropWhile)
  ultimately show ?thesis by simp
qed

lemma safeText_twice: "safeText (JStr (safeText v m)) m = trim_end (safeText v m)"
proof -
  define r where "r = safeText v m"
  have chars: "\<forall>c \<in> set r. c \<noteq> 0x3C \<and> c \<noteq> 0x3E \<and> \<not> c \<le> 0x1F"
    using safeText_chars [of _ v m] by (simp add: r_def)
  have hd: "r = [] \<or> \<not> is_space (hd r)"
  proof (cases v)
    case (JStr x)
    define t where "t = trim (replace_ctl_runs (strip_angle x))"
    have "r = take m t"
      by (simp add: r_def JStr safeText_def Let_def t_def)
    moreover have "t \<noteq> [] \<and> hd t = a" if "take m t = a # list" for a list
      using that by (cases t; cases m) auto
    ultimately show ?thesis
      using trim_hd [of "replace_ctl_runs (strip_angle x)"]
      by (cases "take m t") (auto simp: t_def [symmetric])
  qed (simp_all add: r_def safeText_def)
  have "strip_angle r = r"
    using chars by (simp add: strip_angle_def filter_id_conv)
  moreover have "replace_ctl_runs r = r"
    using chars by (intro replace_ctl_runs_id) (simp add: is_ctl_def)
  moreover have "trim_start r = r"
    using hd by (cases r) (simp_all add: trim_start_def)
  moreover have "length (trim_end r) \<le> m"
  proof -
    have "length (trim_end r) \<le> length r"
      using length_dropWhile_le [of is_space "rev r"] by (simp add: trim_end_def)
    also have "length r \<le> m"
      unfolding r_def by (rule safeText_length)
    finally show ?thesis .
  qed
  ultimately show ?thesis
    by (simp add: safeText_def [of "JStr r"] trim_def r_def [symmetric])
qed

lemma safeText_idem_iff:
  "safeText (JStr (safeText v m)) m = safeText v m
     \<longleftrightarrow> safeText v m = [] \<or> \<not> is_space (last (safeText v m))"
  by (simp add: safeText_twice trim_end_id)

lemma trim_last: "trim s = [] \<or> \<not> is_space (last (trim s))"
proof -
  define w where "w = rev (trim_start s)"
  have "trim s = rev (dropWhile is_space w)"
    by (simp add: trim_def trim_end_def w_def)
  moreover have "dropWhile is_space w = [] \<or> \<not> is_space (hd (dropWhile is_space w))"
    by (cases "dropWhile is_space w = []") (simp_all add: hd_dropWhile)
  ultimately show ?thesis
    by (auto simp: last_rev)
qed

lemma safeText_idem_uncut:
  assumes "length (trim (replace_ctl_runs (strip_angle s))) \<le> m"
  shows "safeText (JStr (safeText (JStr s) m)) m = safeText (JStr s) m"
proof -
  have e: "safeText (JStr s) m = trim (replace_ctl_runs (strip_angle s))"
    using assms by (simp add: safeText_def Let_def)
  have "safeText (JStr s) m = [] \<or> \<not> is_space (last (safeText (JStr s) m))"
    unfolding e by (rule trim_last)
  then show ?thesis
    by (simp only: safeText_idem_iff)
qed

section \<open>Printing an integer\<close>

lemma flog10_int:
  assumes "1 \<le> i"
  shows "flog 10 (of_int i) = int (ilog 10 i)"
proof -
  from ilog_bounds [of 10 i] assms
  have b: "10 ^ ilog 10 i \<le> i" "i < 10 ^ Suc (ilog 10 i)" by simp_all
  have "(of_int (10 ^ ilog 10 i) :: rat) \<le> of_int i"
    using b(1) by (simp only: of_int_le_iff)
  then have lo: "of_int 10 powi int (ilog 10 i) \<le> (of_int i :: rat)"
    by simp
  have "(of_int i :: rat) < of_int (10 ^ Suc (ilog 10 i))"
    using b(2) by (simp only: of_int_less_iff)
  then have hi: "(of_int i :: rat) < of_int 10 powi (int (ilog 10 i) + 1)"
    by (simp add: power_int_add)
  show ?thesis
    by (rule flog_unique [OF _ lo hi]) simp
qed

lemma dec_digits_shift:
  "0 < s \<Longrightarrow> dec_digits (s * 10 ^ j) = dec_digits s @ replicate j 0x30"
proof (induction j)
  case 0
  show ?case by simp
next
  case (Suc j)
  define t where "t = s * 10 ^ j"
  have t: "1 \<le> t" using Suc.prems by (simp add: t_def int_one_le_iff_zero_less)
  have e: "s * 10 ^ Suc j = t * 10" by (simp add: t_def)
  have "\<not> t * 10 < 10" using t by simp
  then have "dec_digits (t * 10) = dec_digits (t * 10 div 10) @ [digit (t * 10 mod 10)]"
    by (subst dec_digits.simps) simp
  moreover have "t * 10 div 10 = t" "t * 10 mod 10 = 0" by simp_all
  moreover have "digit 0 = 0x30" by (simp add: digit_def)
  ultimately have "dec_digits (t * 10) = dec_digits t @ [0x30]" by simp
  then show ?case
    unfolding e using Suc by (simp add: t_def replicate_append_same)
qed

lemma powi_nat_diff:
  assumes "k \<le> N"
  shows "(10::rat) powi (int N - int k) = 10 ^ (N - k)"
proof -
  have "int N - int k = int (N - k)" using assms by simp
  then show ?thesis by (simp only: power_int_of_nat)
qed

lemma scaled_bounds:
  assumes "1 \<le> k" and "k \<le> N" and "10 ^ (N - 1) \<le> i" and "i < 10 ^ N"
  shows "of_int (10 ^ (k - 1)) \<le> (of_int i :: rat) / 10 powi (int N - int k)"
    and "(of_int i :: rat) / 10 powi (int N - int k) < of_int (10 ^ k)"
proof -
  have "k - 1 + (N - k) = N - 1" "k + (N - k) = N"
    using assms(1,2) by simp_all
  then have e: "(10::int) ^ (k - 1) * 10 ^ (N - k) = 10 ^ (N - 1)"
    "(10::int) ^ k * 10 ^ (N - k) = 10 ^ N"
    by (simp_all only: power_add [symmetric])
  have "(of_int (10 ^ (k - 1) * 10 ^ (N - k)) :: rat) \<le> of_int i"
    using assms(3) unfolding e by (simp only: of_int_le_iff)
  then show "of_int (10 ^ (k - 1)) \<le> (of_int i :: rat) / 10 powi (int N - int k)"
    by (simp add: powi_nat_diff [OF assms(2)] pos_le_divide_eq)
  have "(of_int i :: rat) < of_int (10 ^ k * 10 ^ (N - k))"
    using assms(4) unfolding e by (simp only: of_int_less_iff)
  then show "(of_int i :: rat) / 10 powi (int N - int k) < of_int (10 ^ k)"
    by (simp add: powi_nat_diff [OF assms(2)] pos_divide_less_eq)
qed

lemma cand_norm_range:
  assumes "10 ^ (k - 1) \<le> t" and "t \<le> 10 ^ k" and "1 \<le> k"
  shows "10 ^ (k - 1) \<le> fst (cand_norm t n k)" and "fst (cand_norm t n k) < 10 ^ k"
    and "snd (cand_norm t n k) = n \<or> snd (cand_norm t n k) = n + 1"
    and "of_int (fst (cand_norm t n k)) * 10 powi (snd (cand_norm t n k) - int k)
          = (of_int t :: rat) * 10 powi (n - int k)"
proof -
  show "10 ^ (k - 1) \<le> fst (cand_norm t n k)" and "fst (cand_norm t n k) < 10 ^ k"
    and "snd (cand_norm t n k) = n \<or> snd (cand_norm t n k) = n + 1"
    using assms(1,3) by (simp_all add: cand_norm_def)
  show "of_int (fst (cand_norm t n k)) * 10 powi (snd (cand_norm t n k) - int k)
          = (of_int t :: rat) * 10 powi (n - int k)"
  proof (cases "10 ^ k \<le> t")
    case True
    with assms(2) have t: "t = 10 ^ k" by simp
    have "(10::rat) powi int (k - 1) * 10 powi (n + 1 - int k) = 10 powi (int (k - 1) + (n + 1 - int k))"
      by (rule power_int_add [symmetric]) simp
    moreover have "(10::rat) powi int k * 10 powi (n - int k) = 10 powi (int k + (n - int k))"
      by (rule power_int_add [symmetric]) simp
    moreover have "int (k - 1) + (n + 1 - int k) = int k + (n - int k)"
      using assms(3) by simp
    ultimately have "(10::rat) ^ (k - 1) * 10 powi (n + 1 - int k) = 10 ^ k * 10 powi (n - int k)"
      by (simp only: power_int_of_nat)
    with True show ?thesis by (simp add: cand_norm_def t)
  next
    case False
    then show ?thesis by (simp add: cand_norm_def)
  qed
qed

lemma cands_range:
  assumes "1 \<le> k" and "k \<le> N" and "10 ^ (N - 1) \<le> i" and "i < 10 ^ N"
  defines "q \<equiv> (of_int i :: rat) / 10 powi (int N - int k)"
  shows "10 ^ (k - 1) \<le> round_half_even q" and "round_half_even q \<le> 10 ^ k"
    and "10 ^ (k - 1) \<le> other_digits q (round_half_even q)"
    and "other_digits q (round_half_even q) \<le> 10 ^ k"
proof -
  from scaled_bounds [OF assms(1-4)]
  have b: "of_int (10 ^ (k - 1)) \<le> q" "q < of_int (10 ^ k)" by (simp_all add: q_def)
  show "10 ^ (k - 1) \<le> round_half_even q" using b(1) by (rule rhe_ge)
  show "round_half_even q \<le> 10 ^ k" using b(2) by (intro rhe_le) simp
  have f: "10 ^ (k - 1) \<le> \<lfloor>q\<rfloor>" "\<lfloor>q\<rfloor> < 10 ^ k"
    using b by (simp_all add: le_floor_iff floor_less_iff)
  then show "10 ^ (k - 1) \<le> other_digits q (round_half_even q)"
    and "other_digits q (round_half_even q) \<le> 10 ^ k"
    by (simp_all add: other_digits_def)
qed

lemma digit_cand_int:
  assumes "1 \<le> k" and "k \<le> N" and "10 ^ (N - 1) \<le> i" and "i < 10 ^ N"
    and "digit_cand (of_int i) (int N) k = Some c"
  shows "round_trips (of_int i) k c" and "10 ^ (k - 1) \<le> fst c" and "fst c < 10 ^ k"
    and "snd c = int N \<or> snd c = int N + 1"
proof -
  note r = cands_range [OF assms(1-4)]
  from assms(5) consider
      "c = nearest_cand (of_int i) (int N) k" "round_trips (of_int i) k c"
    | "c = other_cand (of_int i) (int N) k" "round_trips (of_int i) k c"
    by (auto simp: digit_cand_def pick_def split: if_splits)
  then have "round_trips (of_int i) k c \<and> 10 ^ (k - 1) \<le> fst c \<and> fst c < 10 ^ k
      \<and> (snd c = int N \<or> snd c = int N + 1)"
  proof cases
    case 1
    with cand_norm_range(1-3) [OF r(1,2) assms(1), of "int N"] show ?thesis
      by (simp add: nearest_cand_def)
  next
    case 2
    with cand_norm_range(1-3) [OF r(3,4) assms(1), of "int N"] show ?thesis
      by (simp add: other_cand_def)
  qed
  then show "round_trips (of_int i) k c" and "10 ^ (k - 1) \<le> fst c" and "fst c < 10 ^ k"
    and "snd c = int N \<or> snd c = int N + 1"
    by simp_all
qed

lemma digit_cand_full:
  assumes "round_double (of_int i) = Fin (of_int i)" and "i < 10 ^ N"
  shows "digit_cand (of_int i) (int N) N \<noteq> None"
proof -
  have "nearest_cand (of_int i) (int N) N = (i, int N)"
    using assms(2) by (simp add: nearest_cand_def rhe_of_int cand_norm_def)
  then have "round_trips (of_int i) N (nearest_cand (of_int i) (int N) N)"
    using assms(1) by (simp add: round_trips_def)
  then show ?thesis
    by (simp add: digit_cand_def pick_def)
qed

lemma shortest_int:
  assumes "round_double (of_int i) = Fin (of_int i)" and "10 ^ (N - 1) \<le> i" and "i < 10 ^ N"
  shows "1 \<le> k \<Longrightarrow> k \<le> N \<Longrightarrow> N \<le> k + fuel
    \<Longrightarrow> shortest (of_int i) (int N) k fuel = (s, n', k')
    \<Longrightarrow> round_double (of_int s * 10 powi (n' - int k')) = Fin (of_int i)
        \<and> 1 \<le> k' \<and> k' \<le> N \<and> 10 ^ (k' - 1) \<le> s \<and> s < 10 ^ k'
        \<and> (n' = int N \<or> n' = int N + 1)"
proof (induction fuel arbitrary: k)
  case 0
  then have k: "k = N" by simp
  from digit_cand_full [OF assms(1,3)] obtain c
    where c: "digit_cand (of_int i) (int N) k = Some c" unfolding k by blast
  from digit_cand_int [OF 0(1,2) assms(2,3) c] 0(4) c 0(1,2)
  show ?case by (auto simp: round_trips_def)
next
  case (Suc fuel)
  show ?case
  proof (cases "digit_cand (of_int i) (int N) k")
    case (Some c)
    from digit_cand_int [OF Suc.prems(1,2) assms(2,3) Some] Suc.prems(4) Some Suc.prems(1,2)
    show ?thesis by (auto simp: round_trips_def)
  next
    case None
    with digit_cand_full [OF assms(1,3)] have "k \<noteq> N" by auto
    with Suc.prems have "1 \<le> Suc k" "Suc k \<le> N" "N \<le> Suc k + fuel" by simp_all
    moreover have "shortest (of_int i) (int N) (Suc k) fuel = (s, n', k')"
      using Suc.prems(4) None by simp
    ultimately show ?thesis by (rule Suc.IH)
  qed
qed

lemma num_digits_int:
  assumes "round_double (of_int i) = Fin (of_int i)" and "1 \<le> i"
    and "num_digits (of_int i) = (s, n', k')" and "L = ilog 10 i"
  shows "round_double (of_int s * 10 powi (n' - int k')) = Fin (of_int i)"
    and "1 \<le> k'" and "int k' \<le> n'" and "10 ^ (k' - 1) \<le> s" and "s < 10 ^ k'"
    and "n' = int L + 1 \<or> n' = int L + 2"
proof -
  define N where "N = Suc L"
  from ilog_bounds [of 10 i] assms(2)
  have b: "10 ^ (N - 1) \<le> i" "i < 10 ^ N" by (simp_all add: N_def assms(4))
  have n: "flog 10 (of_int i) + 1 = int N"
    using flog10_int [OF assms(2)] by (simp add: N_def assms(4))
  have "num_digits (of_int i) = shortest (of_int i) (int N) 1 (max 17 N - 1)"
    by (simp only: num_digits_def Let_def n nat_int)
  then have sh: "shortest (of_int i) (int N) 1 (max 17 N - 1) = (s, n', k')"
    by (simp only: assms(3))
  have "1 \<le> N" by (simp add: N_def)
  moreover have "N \<le> 1 + (max 17 N - 1)" by simp
  ultimately have r: "round_double (of_int s * 10 powi (n' - int k')) = Fin (of_int i)
        \<and> 1 \<le> k' \<and> k' \<le> N \<and> 10 ^ (k' - 1) \<le> s \<and> s < 10 ^ k'
        \<and> (n' = int N \<or> n' = int N + 1)"
    using shortest_int [OF assms(1) b _ _ _ sh] by simp
  then show "round_double (of_int s * 10 powi (n' - int k')) = Fin (of_int i)"
    and "1 \<le> k'" and "10 ^ (k' - 1) \<le> s" and "s < 10 ^ k'"
    by simp_all
  from r show "int k' \<le> n'" by linarith
  from r show "n' = int L + 1 \<or> n' = int L + 2"
    unfolding N_def by linarith
qed

lemma pos_to_string_int:
  assumes "1 \<le> i" and "i < 10 ^ 14"
  shows "pos_to_string (of_int i) = dec_digits i"
proof -
  have d: "round_double (of_int i) = Fin (of_int i)"
    using assms by (intro round_double_int) simp
  obtain s n' k' where nd: "num_digits (of_int i) = (s, n', k')"
    by (cases "num_digits (of_int i)")
  define L where "L = ilog 10 i"
  note p = num_digits_int [OF d assms(1) nd L_def]
  from ilog_bounds [of 10 i] assms(1)
  have b: "10 ^ L \<le> i" "i < 10 ^ Suc L" by (simp_all add: L_def)
  have "L < 14"
  proof (rule ccontr)
    assume "\<not> L < 14"
    then have "(10::int) ^ 14 \<le> 10 ^ L" by (intro power_increasing) simp_all
    with b(1) assms(2) show False by simp
  qed
  define j where "j = nat (n' - int k')"
  have j: "n' - int k' = int j" using p(3) by (simp add: j_def)
  define v where "v = s * 10 ^ j"
  have s0: "0 < s"
  proof -
    have "(0::int) < 10 ^ (k' - 1)" by simp
    with p(4) show ?thesis by linarith
  qed
  have "v \<le> 10 ^ 15"
  proof -
    have "s * 10 ^ j \<le> 10 ^ k' * 10 ^ j"
      using p(5) by (intro mult_right_mono) simp_all
    also have "\<dots> = 10 ^ (k' + j)" by (simp add: power_add)
    also have "(10::int) ^ (k' + j) \<le> 10 ^ 15"
      using \<open>L < 14\<close> p(6) j by (intro power_increasing) auto
    finally show ?thesis by (simp add: v_def)
  qed
  moreover have "0 < v" using s0 by (simp add: v_def)
  ultimately have "\<bar>v\<bar> \<le> 2 ^ 53" by simp
  then have "round_double (of_int v) = Fin (of_int v)"
    by (rule round_double_int)
  moreover have "of_int s * 10 powi (n' - int k') = (of_int v :: rat)"
    by (simp add: j v_def)
  ultimately have vi: "v = i"
    using p(1) by simp
  have "n' \<le> 21" using p(6) \<open>L < 14\<close> by auto
  moreover have "- 5 \<le> n'" using p(3) by simp
  moreover have "nat n' - k' = j" using j by simp
  ultimately have "pos_to_string (of_int i) = dec_digits s @ replicate j 0x30"
    using p(3) by (simp add: pos_to_string_def nd Let_def)
  also have "\<dots> = dec_digits v"
    unfolding v_def using dec_digits_shift [OF s0, of j] by simp
  finally show ?thesis by (simp only: vi)
qed

section \<open>Sanitizing twice: \<^verbatim>\<open>toInt\<close>\<close>

lemma round_double_of_int:
  assumes "round_double (of_int m) = Fin n"
  shows "\<exists>i. n = of_int i"
proof (cases "\<bar>m\<bar> \<le> 2 ^ 53")
  case True
  from round_double_int [OF True] assms show ?thesis by auto
next
  case False
  have d: "round_double n = Fin n" using assms by (rule round_double_idem)
  have p: "round_double (of_int (2 ^ 53)) = Fin (of_int (2 ^ 53))"
    by (rule round_double_int) simp
  have q: "round_double (of_int (- (2 ^ 53))) = Fin (of_int (- (2 ^ 53)))"
    by (rule round_double_int) simp
  have "2 ^ 52 \<le> \<bar>n\<bar>"
  proof (cases "0 \<le> m")
    case True
    with False have "2 ^ 53 \<le> m" by simp
    then have "(of_int (2 ^ 53) :: rat) \<le> of_int m"
      by (simp only: of_int_le_iff)
    from round_double_mono_ge [OF assms p this] show ?thesis by simp
  next
    case neg: False
    with False have "m \<le> - (2 ^ 53)" by simp
    then have "(of_int m :: rat) \<le> of_int (- (2 ^ 53))"
      by (simp only: of_int_le_iff)
    from round_double_mono_le [OF assms q this] show ?thesis by simp
  qed
  with d show ?thesis by (rule double_integral)
qed

lemma parseInt_integral:
  assumes "parseInt s = Fin n"
  shows "\<exists>i. n = of_int i"
proof -
  obtain sg r where sr: "split_sign (trim_start s) = (sg, r)"
    by (cases "split_sign (trim_start s)")
  from assms have "round_double (of_int (sg * digits_val (takeWhile is_digit r))) = Fin n"
    by (simp add: parseInt_def sr Let_def split: if_splits del: of_int_mult)
  then show ?thesis by (rule round_double_of_int)
qed

lemma parseInt_of_printed:
  assumes "\<bar>i\<bar> < 10 ^ 14"
  shows "parseInt (num_to_string (Fin (of_int i))) = Fin (of_int i)"
proof -
  have r: "round_double (of_int i) = Fin (of_int i)"
    using assms by (intro round_double_int) simp
  consider "i = 0" | "0 < i" | "i < 0" by linarith
  then show ?thesis
  proof cases
    case 1
    have "parseInt (js ''0'') = Fin 0" by code_simp
    with 1 show ?thesis by (simp add: num_to_string_def)
  next
    case 2
    then have "1 \<le> i" "i < 10 ^ 14" using assms by simp_all
    then have p: "pos_to_string (of_int i) = dec_digits i" by (rule pos_to_string_int)
    from 2 have "0 \<le> i" by simp
    from dec_digits_props [OF this]
    have d: "dec_digits i \<noteq> []" "\<forall>c \<in> set (dec_digits i). is_digit c"
      "digits_val (dec_digits i) = i" by simp_all
    have "parseInt (dec_digits i @ []) = round_double (of_int (digits_val (dec_digits i)))"
      using d(1,2) by (rule parseInt_digits) simp
    with 2 p d(3) r show ?thesis by (simp add: num_to_string_def)
  next
    case 3
    then have "1 \<le> - i" "- i < 10 ^ 14" using assms by simp_all
    then have p: "pos_to_string (of_int (- i)) = dec_digits (- i)" by (rule pos_to_string_int)
    from 3 have "0 \<le> - i" by simp
    from dec_digits_props [OF this]
    have d: "dec_digits (- i) \<noteq> []" "\<forall>c \<in> set (dec_digits (- i)). is_digit c"
      "digits_val (dec_digits (- i)) = - i" by simp_all
    have "parseInt (0x2D # dec_digits (- i) @ [])
        = round_double (of_int (- digits_val (dec_digits (- i))))"
      using d(1,2) by (rule parseInt_digits) simp
    with 3 p d(3) r show ?thesis by (simp add: num_to_string_def js_def)
  qed
qed

lemma toInt_fixed_point:
  assumes "toInt v (of_int a) (of_int b) = Inr q" and "\<bar>a\<bar> < 10 ^ 14" and "\<bar>b\<bar> < 10 ^ 14"
    and "q \<noteq> 0 \<or> (a \<le> 0 \<and> 0 \<le> b)"
  shows "toInt (JNum (Fin q)) (of_int a) (of_int b) = Inr q"
proof -
  from assms(1) obtain s where s: "js_String v = Inr s"
    by (cases "js_String v") (simp_all add: toInt_def)
  have z: "toInt (JNum (Fin 0)) (of_int a) (of_int b) = Inr 0" if "a \<le> 0" "0 \<le> b"
  proof -
    have "parseInt (num_to_string (Fin (of_int 0))) = Fin (of_int 0)"
      by (rule parseInt_of_printed) simp
    with that show ?thesis by (simp add: toInt_def)
  qed
  show ?thesis
  proof (cases "parseInt s")
    case (Fin n)
    from parseInt_integral [OF Fin] obtain m where m: "n = of_int m" by blast
    define qi where "qi = min (max m a) b"
    have q: "q = of_int qi"
      using assms(1) by (simp add: toInt_def s Fin m qi_def)
    have "\<bar>qi\<bar> < 10 ^ 14"
      using assms(2,3) unfolding qi_def by (simp add: min_def max_def abs_if split: if_splits)
    then have "parseInt (num_to_string (Fin (of_int qi))) = Fin (of_int qi)"
      by (rule parseInt_of_printed)
    then have "toInt (JNum (Fin q)) (of_int a) (of_int b) = Inr (of_int (min (max qi a) b))"
      by (simp add: toInt_def q)
    moreover have "min (max qi a) b = qi"
      unfolding qi_def by (simp add: min_def max_def)
    ultimately show ?thesis by (simp add: q)
  next
    case NaN
    with assms(1,4) s z show ?thesis by (auto simp: toInt_def)
  next
    case PosInf
    with assms(1,4) s z show ?thesis by (auto simp: toInt_def)
  next
    case NegInf
    with assms(1,4) s z show ?thesis by (auto simp: toInt_def)
  qed
qed

section \<open>Sanitizing a sanitized value\<close>




end
